theory Spec2Isabelle
  imports Main "HOL-Library.Word"
begin

section \<open>The nfcapd metric exporter (main.go)\<close>

text \<open>
  The exporter keeps, per collector ident, the latest report of every upstream exporter in
  the package-level variable \<open>metricList\<close>, and renders them as Prometheus samples on each
  pull. This theory embeds \<open>main.go\<close>: the metric descriptions, \<open>Describe\<close>, \<open>Collect\<close>,
  the signal handler and \<open>main\<close>. Calls into the Go standard library and into the
  Prometheus client are modelled by their documented behaviour.
\<close>

subsection \<open>Data\<close>

type_synonym uint64 = "64 word"

text \<open>
  Modelled from the spec: the struct \<open>metric\<close> of one report. Its declaration is in the
  socket file of the package, which is not among the sources. The field names are the ones
  \<open>Collect\<close> reads (and the commented-out print statements list); \<open>exporterID\<close> is
  passed to \<open>strconv.FormatUint\<close>, hence \<open>uint64\<close>; the spec gives every counter as a
  64-bit unsigned integer.
\<close>

record metric =
  ident :: string
  exporterID :: uint64
  uptime :: uint64
  numFlows_tcp :: uint64
  numFlows_udp :: uint64
  numFlows_icmp :: uint64
  numFlows_other :: uint64
  numPackets_tcp :: uint64
  numPackets_udp :: uint64
  numPackets_icmp :: uint64
  numPackets_other :: uint64
  numBytes_tcp :: uint64
  numBytes_udp :: uint64
  numBytes_icmp :: uint64
  numBytes_other :: uint64

text \<open>
  Modelled from the spec: \<open>metricList\<close>, the mapping from ident to the records reported
  under it, declared in the socket file as well. \<open>Collect\<close> ranges over it with a key and
  over each value with an element. A Go map is visited in no fixed order, so the mapping is
  given as the sequence of its entries in the order one \<open>range\<close> visits them; what is
  proved of \<open>Collect\<close> holds for every such sequence.
\<close>

type_synonym store = "(string \<times> metric list) list"

text \<open>
  A description of a metric family (\<open>prometheus.Desc\<close>). \<open>NewDesc\<close> records in
  \<open>descErr\<close> why a description is invalid, if it is.
\<close>

record Desc =
  fqName :: string
  helpText :: string
  variableLabels :: "string list"
  constLabels :: "(string \<times> string) list"
  descErr :: "string option"

datatype ValueType = CounterValue | GaugeValue | UntypedValue

text \<open>
  A constant metric: one sample. The value is a \<open>float64\<close>, held here as the number it
  denotes; every value of this program comes from an unsigned integer, so it is a natural
  number.
\<close>

record Metric =
  desc :: Desc
  valType :: ValueType
  val :: nat
  labelValues :: "string list"

datatype panic =
  IllegalBase
  | InvalidDesc string
  | InconsistentCardinality
  | InvalidLabelValue string

text \<open>
  What a call does that another goroutine can see: taking and releasing the package's
  mutex, and sending on the channel it was handed.
\<close>

datatype event =
  MutexLock
  | MutexUnlock
  | SendDesc Desc
  | SendMetric Metric

text \<open>
  A statement extends the trace of events so far; it ends normally or panics. A panic
  ends the enclosing call with the trace as it stands.
\<close>

type_synonym stmt = "event list \<Rightarrow> event list \<times> panic option"

fun seq :: "stmt list \<Rightarrow> stmt" where
  "seq [] t = (t, None)"
| "seq (s # ss) t = (case s t of (t', None) \<Rightarrow> seq ss t' | (t', Some e) \<Rightarrow> (t', Some e))"

definition for_range :: "'a list \<Rightarrow> ('a \<Rightarrow> stmt) \<Rightarrow> stmt" where
  "for_range xs body = seq (map body xs)"

definition mutex_Lock :: stmt where
  "mutex_Lock t = (t @ [MutexLock], None)"

definition mutex_Unlock :: stmt where
  "mutex_Unlock t = (t @ [MutexUnlock], None)"

definition sent :: "event list \<Rightarrow> Metric list" where
  "sent t = concat (map (\<lambda>e. case e of SendMetric m \<Rightarrow> [m] | _ \<Rightarrow> []) t)"

subsection \<open>Library functions\<close>

text \<open>
  \<open>strconv.FormatUint\<close>: the digits of \<open>i\<close> in the given base, most significant first,
  with lower-case letters for digits from ten on; it panics for a base outside 2..36.
\<close>

definition digit_char :: "nat \<Rightarrow> char" where
  "digit_char d = ''0123456789abcdefghijklmnopqrstuvwxyz'' ! d"

function formatBits :: "nat \<Rightarrow> nat \<Rightarrow> string \<Rightarrow> string" where
  "formatBits u b acc =
     (if 2 \<le> b \<and> b \<le> u then formatBits (u div b) b (digit_char (u mod b) # acc)
      else digit_char u # acc)"
  by pat_completeness auto
termination
  by (relation "measure (\<lambda>(u, b, acc). u)") auto

declare formatBits.simps [simp del]

definition FormatUint :: "uint64 \<Rightarrow> nat \<Rightarrow> panic + string" where
  "FormatUint i base =
     (if base < 2 \<or> 36 < base then Inl IllegalBase else Inr (formatBits (unat i) base []))"

text \<open>The number of binary digits of a natural number (\<open>bits.Len64\<close>).\<close>

fun bit_len :: "nat \<Rightarrow> nat" where
  "bit_len n = (if n = 0 then 0 else Suc (bit_len (n div 2)))"

declare bit_len.simps [simp del]

text \<open>
  The conversion \<open>float64(x)\<close> of an unsigned 64-bit integer: the nearest number with a
  53-bit significand, a tie going to the even significand. Below \<open>2 ^ 53\<close> nothing is
  dropped; from there on the \<open>e\<close> low bits beyond the significand are rounded away.
\<close>

definition float64 :: "uint64 \<Rightarrow> nat" where
  "float64 x =
     (let n = unat x in
      if n < 2 ^ 53 then n
      else
        let e = bit_len n - 53;
            q = n div 2 ^ e;
            r = n mod 2 ^ e;
            h = 2 ^ (e - 1)
        in if r < h \<or> (r = h \<and> even q) then q * 2 ^ e else (q + 1) * 2 ^ e)"

text \<open>
  \<open>utf8.ValidString\<close>: whether a byte string is a sequence of well-formed UTF-8
  encodings (no overlong form, no surrogate, nothing above U+10FFFF).
\<close>

definition byte :: "char \<Rightarrow> nat" where
  "byte c = of_char c"

definition cont :: "char \<Rightarrow> bool" where
  "cont c = (0x80 \<le> byte c \<and> byte c \<le> 0xBF)"

definition between :: "nat \<Rightarrow> nat \<Rightarrow> char \<Rightarrow> bool" where
  "between lo hi c = (lo \<le> byte c \<and> byte c \<le> hi)"

fun ValidString :: "string \<Rightarrow> bool" where
  "ValidString [] = True"
| "ValidString (c # cs) =
     (if byte c < 0x80 then ValidString cs
      else if between 0xC2 0xDF c then
        (case cs of c1 # r \<Rightarrow> cont c1 \<and> ValidString r | _ \<Rightarrow> False)
      else if between 0xE0 0xEF c then
        (case cs of
           c1 # c2 # r \<Rightarrow>
             (if byte c = 0xE0 then between 0xA0 0xBF c1
              else if byte c = 0xED then between 0x80 0x9F c1
              else cont c1) \<and> cont c2 \<and> ValidString r
         | _ \<Rightarrow> False)
      else if between 0xF0 0xF4 c then
        (case cs of
           c1 # c2 # c3 # r \<Rightarrow>
             (if byte c = 0xF0 then between 0x90 0xBF c1
              else if byte c = 0xF4 then between 0x80 0x8F c1
              else cont c1) \<and> cont c2 \<and> cont c3 \<and> ValidString r
         | _ \<Rightarrow> False)
      else False)"

text \<open>
  \<open>prometheus.BuildFQName\<close>: the non-empty parts joined by an underscore; the empty
  string when the name is empty.
\<close>

definition BuildFQName :: "string \<Rightarrow> string \<Rightarrow> string \<Rightarrow> string" where
  "BuildFQName namespace subsystem name =
     (if name = [] then []
      else if namespace \<noteq> [] \<and> subsystem \<noteq> [] then namespace @ ''_'' @ subsystem @ ''_'' @ name
      else if namespace \<noteq> [] then namespace @ ''_'' @ name
      else if subsystem \<noteq> [] then subsystem @ ''_'' @ name
      else name)"

text \<open>
  \<open>prometheus.NewDesc\<close>: the description; it is invalid when the name is not a metric
  name (letters, digits, underscores and colons, not starting with a digit), when a label
  is not a label name (letters, digits and underscores, not starting with a digit or with
  two underscores), or when a label occurs twice. These are the rules for names of the
  legacy scheme; later versions of the library accept more names.
\<close>

definition is_digit :: "char \<Rightarrow> bool" where
  "is_digit c = (48 \<le> byte c \<and> byte c \<le> 57)"

definition is_letter :: "char \<Rightarrow> bool" where
  "is_letter c = (between 65 90 c \<or> between 97 122 c \<or> byte c = 95)"

definition IsValidMetricName :: "string \<Rightarrow> bool" where
  "IsValidMetricName s =
     (case s of
        [] \<Rightarrow> False
      | c # cs \<Rightarrow>
          (is_letter c \<or> byte c = 58) \<and>
          list_all (\<lambda>c. is_letter c \<or> byte c = 58 \<or> is_digit c) cs)"

definition checkLabelName :: "string \<Rightarrow> bool" where
  "checkLabelName s =
     (case s of
        [] \<Rightarrow> False
      | c # cs \<Rightarrow>
          is_letter c \<and> list_all (\<lambda>c. is_letter c \<or> is_digit c) cs \<and> take 2 s \<noteq> ''__'')"

definition NewDesc :: "string \<Rightarrow> string \<Rightarrow> string list \<Rightarrow> (string \<times> string) list \<Rightarrow> Desc" where
  "NewDesc fq h labels consts =
     \<lparr>fqName = fq, helpText = h, variableLabels = labels, constLabels = consts,
      descErr =
        (if \<not> IsValidMetricName fq then Some ''invalid metric name''
         else if \<not> list_all checkLabelName (map fst consts @ labels) then Some ''invalid label name''
         else if \<not> distinct (map fst consts @ labels) then Some ''duplicate label names''
         else None)\<rparr>"

text \<open>
  \<open>prometheus.MustNewConstMetric\<close>: the sample, or a panic when the description is
  invalid, when the number of label values is not the number of variable labels of the
  description, or when a label value is not valid UTF-8.
\<close>

definition MustNewConstMetric :: "Desc \<Rightarrow> ValueType \<Rightarrow> nat \<Rightarrow> string list \<Rightarrow> panic + Metric" where
  "MustNewConstMetric d vt v lvs =
     (case descErr d of
        Some e \<Rightarrow> Inl (InvalidDesc e)
      | None \<Rightarrow>
          if length lvs \<noteq> length (variableLabels d) then Inl InconsistentCardinality
          else case filter (\<lambda>l. \<not> ValidString l) lvs of
                 l # _ \<Rightarrow> Inl (InvalidLabelValue l)
               | [] \<Rightarrow> Inr \<lparr>desc = d, valType = vt, val = v, labelValues = lvs\<rparr>)"

subsection \<open>The metric descriptions\<close>

definition namespace :: string where
  "namespace = ''nfsen''"

text \<open>
  The variable \<open>uptime\<close> of the source; the suffix keeps it apart from the field of the
  same name.
\<close>

definition uptime_desc :: Desc where
  "uptime_desc =
     NewDesc (BuildFQName namespace ''collector'' ''uptime'')
       ''nfsen uptime.''
       [''version''] []"

definition flowsReceived :: Desc where
  "flowsReceived =
     NewDesc (BuildFQName namespace ''collector'' ''flows'')
       ''How many flows have been received (per ident and protocol (tcp/udp/icmp/other)).''
       [''ident'', ''exporter'', ''proto''] []"

definition packetsReceived :: Desc where
  "packetsReceived =
     NewDesc (BuildFQName namespace ''collector'' ''packets'')
       ''How many packets have been received (per ident and protocol) (tcp/udp/icmp/other).''
       [''ident'', ''exporter'', ''proto''] []"

definition bytesReceived :: Desc where
  "bytesReceived =
     NewDesc (BuildFQName namespace ''collector'' ''bytes'')
       ''How many bytes have been received (per ident and protocol) (tcp/udp/icmp/other).''
       [''ident'', ''exporter'', ''proto''] []"

subsection \<open>Describe and Collect\<close>

definition send_desc :: "Desc \<Rightarrow> stmt" where
  "send_desc d t = (t @ [SendDesc d], None)"

text \<open>
  \<open>ch <- prometheus.MustNewConstMetric(...)\<close>: the metric is built first, which may
  panic, and then sent.
\<close>

definition send_metric :: "Desc \<Rightarrow> ValueType \<Rightarrow> nat \<Rightarrow> string list \<Rightarrow> stmt" where
  "send_metric d vt v lvs t =
     (case MustNewConstMetric d vt v lvs of
        Inl e \<Rightarrow> (t, Some e)
      | Inr m \<Rightarrow> (t @ [SendMetric m], None))"

text \<open>
  \<open>Describe\<close> reads none of the package's variables but the four descriptions; the store
  is an argument so that this can be said.
\<close>

definition Exporter_Describe :: "store \<Rightarrow> stmt" where
  "Exporter_Describe metricList =
     seq [send_desc uptime_desc,
          send_desc flowsReceived,
          send_desc packetsReceived,
          send_desc bytesReceived]"

text \<open>The body of the inner loop of \<open>Collect\<close>, for the key \<open>ident'\<close> of the outer one.\<close>

definition collect_metric :: "string \<Rightarrow> metric \<Rightarrow> stmt" where
  "collect_metric ident' metric =
     (case FormatUint (exporterID metric) 10 of
        Inl e \<Rightarrow> (\<lambda>t. (t, Some e))
      | Inr exporterStr \<Rightarrow>
          seq [
            send_metric flowsReceived CounterValue (float64 (numFlows_tcp metric)) [ident', exporterStr, ''tcp''],
            send_metric flowsReceived CounterValue (float64 (numFlows_udp metric)) [ident', exporterStr, ''udp''],
            send_metric flowsReceived CounterValue (float64 (numFlows_icmp metric)) [ident', exporterStr, ''icmp''],
            send_metric flowsReceived CounterValue (float64 (numFlows_other metric)) [ident', exporterStr, ''other''],
            send_metric packetsReceived CounterValue (float64 (numPackets_tcp metric)) [ident', exporterStr, ''tcp''],
            send_metric packetsReceived CounterValue (float64 (numPackets_udp metric)) [ident', exporterStr, ''udp''],
            send_metric packetsReceived CounterValue (float64 (numPackets_icmp metric)) [ident', exporterStr, ''icmp''],
            send_metric packetsReceived CounterValue (float64 (numPackets_other metric)) [ident', exporterStr, ''other''],
            send_metric bytesReceived CounterValue (float64 (numBytes_tcp metric)) [ident', exporterStr, ''tcp''],
            send_metric bytesReceived CounterValue (float64 (numBytes_udp metric)) [ident', exporterStr, ''udp''],
            send_metric bytesReceived CounterValue (float64 (numPackets_icmp metric)) [ident', exporterStr, ''icmp''],
            send_metric bytesReceived CounterValue (float64 (numPackets_other metric)) [ident', exporterStr, ''other'']])"

definition Exporter_Collect :: "store \<Rightarrow> stmt" where
  "Exporter_Collect metricList =
     seq [mutex_Lock,
          for_range metricList (\<lambda>(ident', metrics).
            for_range metrics (\<lambda>metric. collect_metric ident' metric)),
          mutex_Unlock]"

text \<open>Whether the mutex is held after the events of a trace.\<close>

definition held :: "event list \<Rightarrow> bool" where
  "held t = foldl (\<lambda>h e. case e of MutexLock \<Rightarrow> True | MutexUnlock \<Rightarrow> False | _ \<Rightarrow> h) False t"

text \<open>
  Reading a decimal numeral back: the number a string of decimal digits denotes.
\<close>

definition decimal :: "string \<Rightarrow> nat" where
  "decimal s = foldl (\<lambda>a c. 10 * a + (byte c - 48)) 0 s"

text \<open>
  The numbers a finite \<open>float64\<close> can hold, among the naturals: those whose binary
  numeral fits a 53-bit significand, the bits below it being zero.
\<close>

definition representable :: "nat \<Rightarrow> bool" where
  "representable x = (x mod 2 ^ (bit_len x - 53) = 0 \<and> x < 2 ^ 1024)"

subsection \<open>A pull\<close>

text \<open>
  \<open>main\<close> registers the exporter with the library's default registry and serves that
  registry with \<open>promhttp.Handler\<close>. On a pull the handler has every registered
  collector collect, and writes the samples in the text format, family by family: a
  \<open>HELP\<close> line, a \<open>TYPE\<close> line and one line for each sample. A family is written
  for the samples collected; a description without a sample is not written. The lines
  are taken as a set: their order is not modelled.
\<close>

datatype line =
  HelpLine string string
  | TypeLine string ValueType
  | SampleLine string "(string \<times> string) list" nat

definition lines_of :: "Metric \<Rightarrow> line set" where
  "lines_of m =
     {HelpLine (fqName (desc m)) (helpText (desc m)),
      TypeLine (fqName (desc m)) (valType m),
      SampleLine (fqName (desc m)) (zip (variableLabels (desc m)) (labelValues m)) (val m)}"

definition expose :: "Metric list \<Rightarrow> line set" where
  "expose ms = (\<Union>m\<in>set ms. lines_of m)"

text \<open>
  The answer to a pull, given the store and the samples \<open>others\<close> of the other
  collectors of the registry (the library registers a collector of the Go runtime and one
  of the process with the default registry). A panic in \<open>Collect\<close> is not recovered.
  Two samples of the same name and label values make the gathering fail, and the handler
  answers with an error. The registry's further checks of a sample against its
  description are not modelled.
\<close>

datatype response = Body "line set" | InternalServerError | Panicked panic

definition pull :: "store \<Rightarrow> Metric list \<Rightarrow> response" where
  "pull metricList others =
     (case Exporter_Collect metricList [] of
        (t, Some e) \<Rightarrow> Panicked e
      | (t, None) \<Rightarrow>
          let ms = others @ sent t
          in if distinct (map (\<lambda>m. (fqName (desc m), labelValues m)) ms)
             then Body (expose ms) else InternalServerError)"

text \<open>A sample as the collector of the Go runtime yields it: eight goroutines.\<close>

definition go_goroutines :: Metric where
  "go_goroutines =
     \<lparr>desc = NewDesc ''go_goroutines'' ''Number of goroutines that currently exist.'' [] [],
      valType = GaugeValue, val = 8, labelValues = []\<rparr>"

subsection \<open>The metric store\<close>

text \<open>
  Modelled from the spec: \<open>Upsert\<close>, the store's mutation entry point, which is in the
  socket file and not among the sources. It inserts the record, or replaces the one with
  the same ident and exporterID; all fields are replaced together. A record of a new
  exporter is added to the records of its ident, a record of a new ident opens an entry.
\<close>

fun upsert_records :: "metric \<Rightarrow> metric list \<Rightarrow> metric list" where
  "upsert_records r [] = [r]"
| "upsert_records r (m # ms) =
     (if exporterID m = exporterID r then r # ms else m # upsert_records r ms)"

fun Upsert :: "metric \<Rightarrow> store \<Rightarrow> store" where
  "Upsert r [] = [(ident r, [r])]"
| "Upsert r ((i, ms) # s) =
     (if i = ident r then (i, upsert_records r ms) # s else (i, ms) # Upsert r s)"

text \<open>
  Modelled from the spec: \<open>Snapshot\<close>, a point-in-time copy of the whole mapping. The
  source has no such function: \<open>Collect\<close> ranges over \<open>metricList\<close> itself.
\<close>

definition Snapshot :: "store \<Rightarrow> store" where
  "Snapshot s = s"

text \<open>The store after a sequence of reports, starting empty.\<close>

definition reports :: "metric list \<Rightarrow> store" where
  "reports rs = foldl (\<lambda>s r. Upsert r s) [] rs"

text \<open>The records a store holds for a pair of ident and exporterID.\<close>

definition records_of :: "store \<Rightarrow> string \<Rightarrow> uint64 \<Rightarrow> metric list" where
  "records_of s i e =
     filter (\<lambda>m. exporterID m = e) (concat (map snd (filter (\<lambda>p. fst p = i) s)))"

definition present :: "metric \<Rightarrow> store \<Rightarrow> bool" where
  "present r s = list_ex (\<lambda>p. fst p = ident r \<and> r \<in> set (snd p)) s"

text \<open>
  Every ident has one entry, every exporterID one record under its ident, and a record
  is filed under its own ident.
\<close>

definition store_inv :: "store \<Rightarrow> bool" where
  "store_inv s =
     (distinct (map fst s) \<and>
      list_all (\<lambda>p. distinct (map exporterID (snd p)) \<and> list_all (\<lambda>m. ident m = fst p) (snd p)) s)"

subsection \<open>Start and shutdown\<close>

datatype Signal = SIGHUP | SIGINT | SIGQUIT | SIGKILL | SIGUSR1 | SIGTERM

text \<open>
  Why registering a handler panics: the pattern is empty, or it is registered already.
\<close>

datatype http_panic = InvalidPattern | MultipleRegistrations

text \<open>What the process does to its surroundings, as far as \<open>main.go\<close> says.\<close>

datatype action =
  FlagParse
  | MustRegister
  | NewMutex
  | SocketNew string
  | SocketOpen
  | SignalNotify "Signal list"
  | SocketRun
  | HttpHandle string
  | HttpHandleFunc string
  | HttpListenAndServe string
  | HttpPanic http_panic
  | Print string
  | SocketClose
  | OsRemove string
  | OsExit int

record flags =
  listenAddress :: string
  metricsURI :: string
  socketPath :: string

text \<open>
  What \<open>flag.Parse\<close> makes of the command line: the three flags, a request for help
  (\<open>-h\<close>), or an error.
\<close>

datatype command_line = Parsed flags | Help | Malformed

text \<open>\<open>log.Fatal\<close> prints its arguments and calls \<open>os.Exit(1)\<close>.\<close>

definition log_Fatal :: "string \<Rightarrow> action list" where
  "log_Fatal msg = [Print msg, OsExit 1]"

text \<open>
  \<open>SetupCloseHandler\<close> has the signals \<open>os.Interrupt\<close> (SIGINT) and \<open>SIGTERM\<close>
  delivered to a channel, and starts a goroutine that waits for the first of them. Given
  the signal the process receives, the result is what that goroutine does; \<open>None\<close>
  for a signal it is not notified of, where it keeps waiting.
\<close>

definition notified :: "Signal list" where
  "notified = [SIGINT, SIGTERM]"

definition SetupCloseHandler :: "string \<Rightarrow> Signal \<Rightarrow> action list option" where
  "SetupCloseHandler path sig =
     (if sig \<in> set notified
      then Some [Print (''Exit exporter'' @ [CHR 0x0A]), SocketClose, OsRemove path, OsExit 0]
      else None)"

text \<open>
  \<open>main\<close>, up to the point where the process exits or serves. The surroundings decide
  three things: what \<open>flag.Parse\<close> makes of the command line (it prints the usage and
  exits with status 0 on a request for help, and exits with status 2 on an error), whether
  \<open>Open\<close> returns an error, and the error \<open>http.ListenAndServe\<close> returns if it ever
  returns. \<open>http.Handle\<close> panics on an empty pattern, and \<open>http.HandleFunc\<close> does
  when the metrics path is \<open>/\<close>, which is then registered twice; patterns that only
  later versions of the multiplexer refuse are not told apart.
\<close>

definition main :: "command_line \<Rightarrow> string option \<Rightarrow> string option \<Rightarrow> action list" where
  "main parsed open_err serve_err =
     (case parsed of
        Malformed \<Rightarrow> [FlagParse, OsExit 2]
      | Help \<Rightarrow> [FlagParse, OsExit 0]
      | Parsed fl \<Rightarrow>
          [FlagParse, MustRegister, NewMutex, SocketNew (socketPath fl), SocketOpen] @
          (case open_err of
             Some err \<Rightarrow> log_Fatal (''Socket handler failed: '' @ err)
           | None \<Rightarrow>
               [SignalNotify notified, SocketRun] @
               (if metricsURI fl = [] then [HttpPanic InvalidPattern]
                else if metricsURI fl = ''/''
                  then [HttpHandle (metricsURI fl), HttpPanic MultipleRegistrations]
                else
                  [HttpHandle (metricsURI fl), HttpHandleFunc ''/'',
                   HttpListenAndServe (listenAddress fl)] @
                  (case serve_err of Some err \<Rightarrow> log_Fatal err | None \<Rightarrow> []))))"

definition is_http :: "action \<Rightarrow> bool" where
  "is_http a = (case a of HttpHandle _ \<Rightarrow> True | HttpHandleFunc _ \<Rightarrow> True | HttpListenAndServe _ \<Rightarrow> True | _ \<Rightarrow> False)"

text \<open>
  The status the process exits with: that of the first \<open>os.Exit\<close> of the trace, or 2
  when a panic comes first.
\<close>

fun exit_status :: "action list \<Rightarrow> int option" where
  "exit_status [] = None"
| "exit_status (OsExit c # _) = Some c"
| "exit_status (HttpPanic _ # _) = Some 2"
| "exit_status (_ # as) = exit_status as"

subsection \<open>A report\<close>

text \<open>
  The report of the spec's end-to-end scenario: ident \<open>live\<close>, exporterID 7, 100 tcp
  flows, 5000 tcp bytes, uptime 60, every other counter zero.
\<close>

definition live7 :: metric where
  "live7 =
     \<lparr>ident = ''live'', exporterID = 7, uptime = 60,
      numFlows_tcp = 100, numFlows_udp = 0, numFlows_icmp = 0, numFlows_other = 0,
      numPackets_tcp = 0, numPackets_udp = 0, numPackets_icmp = 0, numPackets_other = 0,
      numBytes_tcp = 5000, numBytes_udp = 0, numBytes_icmp = 0, numBytes_other = 0\<rparr>"


section \<open>Lemmas\<close>

subsection \<open>Decimal numerals and label values\<close>

lemma digit_char_byte: "u < 10 \<Longrightarrow> byte (digit_char u) = 48 + u"
proof -
  assume "u < 10"
  then have "u \<in> {0, 1, 2, 3, 4, 5, 6, 7, 8, 9}" by auto
  then show ?thesis
    by (auto simp: digit_char_def byte_def)
qed

lemma formatBits_decimal:
  "foldl (\<lambda>a c. 10 * a + (byte c - 48)) 0 (formatBits u 10 acc) =
   foldl (\<lambda>a c. 10 * a + (byte c - 48)) u acc"
proof (induction u "10::nat" acc rule: formatBits.induct)
  case (1 u acc)
  show ?case
  proof (cases "10 \<le> u")
    case True
    then have "formatBits u 10 acc = formatBits (u div 10) 10 (digit_char (u mod 10) # acc)"
      by (subst formatBits.simps) simp
    moreover have "byte (digit_char (u mod 10)) = 48 + u mod 10"
      by (rule digit_char_byte) simp
    ultimately show ?thesis
      using 1 True by simp
  next
    case False
    then have "formatBits u 10 acc = digit_char u # acc"
      by (subst formatBits.simps) simp
    then show ?thesis
      using False by (simp add: digit_char_byte)
  qed
qed

lemma formatBits_digits:
  "list_all is_digit acc \<Longrightarrow> list_all is_digit (formatBits u 10 acc)"
proof (induction u "10::nat" acc rule: formatBits.induct)
  case (1 u acc)
  show ?case
  proof (cases "10 \<le> u")
    case True
    then have eq: "formatBits u 10 acc = formatBits (u div 10) 10 (digit_char (u mod 10) # acc)"
      by (subst formatBits.simps) simp
    have "is_digit (digit_char (u mod 10))"
      by (simp add: is_digit_def digit_char_byte)
    then show ?thesis
      using 1 True eq by simp
  next
    case False
    then have "formatBits u 10 acc = digit_char u # acc"
      by (subst formatBits.simps) simp
    then show ?thesis
      using False 1 by (simp add: is_digit_def digit_char_byte)
  qed
qed

lemma FormatUint_10: "FormatUint e 10 = Inr (formatBits (unat e) 10 [])"
  by (simp add: FormatUint_def)

text \<open>A string of bytes below 128 is valid UTF-8; so are the decimal numerals.\<close>

lemma ValidString_ascii: "list_all (\<lambda>c. byte c < 128) s \<Longrightarrow> ValidString s"
  by (induction s) auto

lemma ValidString_digits: "list_all is_digit s \<Longrightarrow> ValidString s"
  by (rule ValidString_ascii) (auto simp: list_all_iff is_digit_def)

lemma ValidString_formatBits: "ValidString (formatBits u 10 [])"
  by (rule ValidString_digits) (simp add: formatBits_digits)

lemma ValidString_protos:
  "ValidString ''tcp''" "ValidString ''udp''" "ValidString ''icmp''" "ValidString ''other''"
  by (simp_all add: byte_def)

lemma ValidString_live: "ValidString ''live''"
  by (simp add: byte_def)

subsection \<open>Bit length\<close>

lemma bit_len_pos: "0 < n \<Longrightarrow> bit_len n = Suc (bit_len (n div 2))"
  by (subst bit_len.simps) simp

lemma bit_len_0: "bit_len 0 = 0"
  by (subst bit_len.simps) simp

lemma bit_len_bounds: "0 < n \<Longrightarrow> 2 ^ (bit_len n - 1) \<le> n \<and> n < 2 ^ bit_len n"
proof (induction n rule: bit_len.induct)
  case (1 n)
  show ?case
  proof (cases "n div 2 = 0")
    case True
    with 1(2) have "n = 1" by (simp add: div_eq_0_iff) 
    then show ?thesis
      by (simp add: bit_len_pos bit_len_0)
  next
    case False
    then have pos: "0 < n div 2" by simp
    with 1 have IH: "2 ^ (bit_len (n div 2) - 1) \<le> n div 2" "n div 2 < 2 ^ bit_len (n div 2)"
      by simp_all
    have bl: "bit_len n = Suc (bit_len (n div 2))"
      using 1(2) by (rule bit_len_pos)
    have "0 < bit_len (n div 2)"
      using pos by (simp add: bit_len_pos)
    then have "(2::nat) ^ bit_len (n div 2) = 2 * 2 ^ (bit_len (n div 2) - 1)"
      by (cases "bit_len (n div 2)") simp_all
    with IH(1) have "2 ^ bit_len (n div 2) \<le> 2 * (n div 2)" by simp
    also have "\<dots> \<le> n" by simp
    finally have lower: "2 ^ (bit_len n - 1) \<le> n" by (simp add: bl)
    from IH(2) have "2 * (n div 2) + 2 \<le> 2 * 2 ^ bit_len (n div 2)" by simp
    moreover have "n < 2 * (n div 2) + 2" by presburger
    ultimately have "n < 2 ^ bit_len n" by (simp add: bl)
    with lower show ?thesis ..
  qed
qed

lemma bit_len_eqI:
  assumes "2 ^ (L - 1) \<le> x" and "x < 2 ^ L" and "0 < L"
  shows "bit_len x = L"
proof -
  from assms(1) have "0 < x"
    by (cases "x = 0") simp_all
  then have b: "2 ^ (bit_len x - 1) \<le> x" "x < 2 ^ bit_len x"
    using bit_len_bounds by simp_all
  have "(2::nat) ^ (bit_len x - 1) < 2 ^ L"
    using b(1) assms(2) by (rule le_less_trans)
  then have "bit_len x - 1 < L" by simp
  moreover have "(2::nat) ^ (L - 1) < 2 ^ bit_len x"
    using assms(1) b(2) by (rule le_less_trans)
  then have "L - 1 < bit_len x" by simp
  ultimately show ?thesis using assms(3) by simp
qed

lemma bit_len_le:
  assumes "n < 2 ^ k"
  shows "bit_len n \<le> k"
proof (cases "n = 0")
  case True
  then show ?thesis by (simp add: bit_len_0)
next
  case False
  then have "2 ^ (bit_len n - 1) \<le> n"
    using bit_len_bounds by simp
  from this assms have "(2::nat) ^ (bit_len n - 1) < 2 ^ k"
    by (rule le_less_trans)
  then have "bit_len n - 1 < k"
    by (rule power_less_imp_less_exp [rotated]) simp
  then show ?thesis by simp
qed

lemma bit_len_large:
  assumes "2 ^ 53 \<le> n"
  shows "53 < bit_len n"
proof -
  from assms have "0 < n"
    by (cases "n = 0") simp_all
  then have "n < 2 ^ bit_len n"
    using bit_len_bounds by simp
  with assms have "(2::nat) ^ 53 < 2 ^ bit_len n"
    by (rule le_less_trans)
  then show ?thesis
    by (rule power_less_imp_less_exp [rotated]) simp
qed

lemma bit_len_shift:
  assumes "0 < m"
  shows "bit_len (m * 2 ^ k) = bit_len m + k"
proof -
  from assms have b: "2 ^ (bit_len m - 1) \<le> m" "m < 2 ^ bit_len m"
    using bit_len_bounds by simp_all
  from assms have pos: "0 < bit_len m"
    by (simp add: bit_len_pos)
  have "2 ^ (bit_len m - 1) * 2 ^ k \<le> m * (2::nat) ^ k"
    using b(1) by (rule mult_le_mono1)
  moreover have "bit_len m + k - 1 = bit_len m - 1 + k"
    using pos by simp
  ultimately have "2 ^ (bit_len m + k - 1) \<le> m * (2::nat) ^ k"
    by (simp add: power_add)
  moreover have "m * 2 ^ k < 2 ^ bit_len m * (2::nat) ^ k"
    using b(2) by simp
  then have "m * 2 ^ k < (2::nat) ^ (bit_len m + k)"
    by (simp add: power_add)
  ultimately show ?thesis
    using pos by (intro bit_len_eqI) simp_all
qed

lemma bit_len_2_53: "bit_len (2 ^ 53) = 54"
  by (rule bit_len_eqI) simp_all

subsection \<open>Rounding to a 53-bit significand\<close>

text \<open>The significand of a number of 54 bits or more, and the two candidates around it.\<close>

lemma significand_bounds:
  assumes big: "2 ^ 53 \<le> n" and e: "e = bit_len n - 53"
  shows "0 < e" and "bit_len n = e + 53"
    and "2 ^ 52 \<le> n div 2 ^ e" and "n div 2 ^ e < 2 ^ 53"
proof -
  from big have L: "53 < bit_len n" by (rule bit_len_large)
  with e show "0 < e" and bl: "bit_len n = e + 53" by simp_all
  from big have "0 < n"
    by (cases "n = 0") simp_all
  then have b: "2 ^ (bit_len n - 1) \<le> n" "n < 2 ^ bit_len n"
    using bit_len_bounds by simp_all
  from b(1) bl have "2 ^ 52 * 2 ^ e \<le> n"
    by (simp add: power_add mult.commute)
  then show "2 ^ 52 \<le> n div 2 ^ e"
    by (simp add: less_eq_div_iff_mult_less_eq)
  from b(2) bl have "n < 2 ^ 53 * 2 ^ e"
    by (simp add: power_add mult.commute)
  then show "n div 2 ^ e < 2 ^ 53"
    by (simp add: less_mult_imp_div_less)
qed

lemma float64_small: "unat x < 2 ^ 53 \<Longrightarrow> float64 x = unat x"
  by (simp add: float64_def)

lemma float64_large:
  assumes "\<not> unat x < 2 ^ 53"
  shows "float64 x =
    (if unat x mod 2 ^ (bit_len (unat x) - 53) < 2 ^ (bit_len (unat x) - 53 - 1) \<or>
        (unat x mod 2 ^ (bit_len (unat x) - 53) = 2 ^ (bit_len (unat x) - 53 - 1) \<and>
         even (unat x div 2 ^ (bit_len (unat x) - 53)))
     then unat x div 2 ^ (bit_len (unat x) - 53) * 2 ^ (bit_len (unat x) - 53)
     else (unat x div 2 ^ (bit_len (unat x) - 53) + 1) * 2 ^ (bit_len (unat x) - 53))"
  using assms by (simp add: float64_def Let_def)

text \<open>
  Pure arithmetic: with \<open>n = lo + r\<close> between the candidates \<open>lo\<close> and \<open>lo + E\<close>,
  the candidate chosen is at most as far from \<open>n\<close> as either of them, and every number
  outside the open interval is at least that far.
\<close>

lemma distance_down:
  fixes f n r E H lo :: nat
  assumes "f = lo" and "n = lo + r" and "E = 2 * H" and "r \<le> H"
  shows "\<bar>int f - int n\<bar> \<le> int r \<and> \<bar>int f - int n\<bar> \<le> int E - int r"
  using assms by simp

lemma distance_up:
  fixes f n r E H lo :: nat
  assumes "f = lo + E" and "n = lo + r" and "E = 2 * H" and "H \<le> r" and "r < E"
  shows "\<bar>int f - int n\<bar> \<le> int r \<and> \<bar>int f - int n\<bar> \<le> int E - int r"
  using assms by simp

lemma far_below:
  fixes y n r lo :: nat
  assumes "y \<le> lo" and "n = lo + r"
  shows "int r \<le> \<bar>int y - int n\<bar>"
  using assms by simp

lemma far_above:
  fixes y n r E lo :: nat
  assumes "lo + E \<le> y" and "n = lo + r" and "r < E"
  shows "int E - int r \<le> \<bar>int y - int n\<bar>"
  using assms by simp

lemma float64_distance:
  assumes big: "2 ^ 53 \<le> unat x"
  defines "e \<equiv> bit_len (unat x) - 53"
  defines "q \<equiv> unat x div 2 ^ e"
  defines "r \<equiv> unat x mod 2 ^ e"
  shows "(float64 x = q * 2 ^ e \<or> float64 x = (q + 1) * 2 ^ e) \<and>
         \<bar>int (float64 x) - int (unat x)\<bar> \<le> int r \<and>
         \<bar>int (float64 x) - int (unat x)\<bar> \<le> int (2 ^ e) - int r"
proof -
  have e0: "0 < e"
    using significand_bounds(1) [OF big] by (simp add: e_def)
  then have E: "(2::nat) ^ e = 2 * 2 ^ (e - 1)"
    by (cases e) simp_all
  have n: "unat x = q * 2 ^ e + r"
    using div_mult_mod_eq [of "unat x" "2 ^ e"] by (simp add: q_def r_def)
  have r: "r < 2 ^ e"
    by (simp add: r_def)
  have f: "float64 x = (if r < 2 ^ (e - 1) \<or> (r = 2 ^ (e - 1) \<and> even q) then q * 2 ^ e else (q + 1) * 2 ^ e)"
    using big float64_large [of x] by (simp add: e_def q_def r_def not_less)
  show ?thesis
  proof (cases "r < 2 ^ (e - 1) \<or> (r = 2 ^ (e - 1) \<and> even q)")
    case True
    then have fx: "float64 x = q * 2 ^ e" using f by simp
    from True have "r \<le> 2 ^ (e - 1)" by auto
    with fx n E have "\<bar>int (float64 x) - int (unat x)\<bar> \<le> int r \<and>
         \<bar>int (float64 x) - int (unat x)\<bar> \<le> int (2 ^ e) - int r"
      by (rule distance_down)
    with fx show ?thesis by blast
  next
    case False
    then have fx: "float64 x = (q + 1) * 2 ^ e" using f by simp
    then have fx': "float64 x = q * 2 ^ e + 2 ^ e" by simp
    from False have "2 ^ (e - 1) \<le> r" by auto
    with fx' n E have "\<bar>int (float64 x) - int (unat x)\<bar> \<le> int r \<and>
         \<bar>int (float64 x) - int (unat x)\<bar> \<le> int (2 ^ e) - int r"
      using r by (rule distance_up)
    with fx show ?thesis by blast
  qed
qed

text \<open>No representable number lies strictly between the two candidates.\<close>

lemma no_float_between:
  assumes big: "2 ^ 53 \<le> n" and e: "e = bit_len n - 53" and q: "q = n div 2 ^ e"
    and y: "representable y"
  shows "y \<le> q * 2 ^ e \<or> (q + 1) * 2 ^ e \<le> y"
proof (rule ccontr)
  assume "\<not> ?thesis"
  then have lo: "q * 2 ^ e < y" and hi: "y < (q + 1) * 2 ^ e"
    by simp_all
  note sb = significand_bounds [OF big e]
  have "2 ^ 52 * 2 ^ e \<le> q * (2::nat) ^ e"
    using sb(3) q by simp
  from this lo have "2 ^ 52 * 2 ^ e < y"
    by (rule le_less_trans)
  then have "2 ^ (bit_len n - 1) \<le> y"
    using sb(2) by (simp add: power_add mult.commute)
  moreover have "(q + 1) * 2 ^ e \<le> 2 ^ 53 * (2::nat) ^ e"
    using sb(4) q by (intro mult_le_mono1) simp
  from hi this have "y < 2 ^ 53 * 2 ^ e"
    by (rule less_le_trans)
  then have "y < 2 ^ bit_len n"
    using sb(2) by (simp add: power_add mult.commute)
  ultimately have "bit_len y = bit_len n"
    using sb(2) by (intro bit_len_eqI) simp_all
  with y e have "y mod 2 ^ e = 0"
    by (simp add: representable_def)
  then obtain k where k: "y = k * 2 ^ e"
    by (auto simp: mod_eq_0_iff_dvd mult.commute)
  from lo have "q * 2 ^ e < k * 2 ^ e" unfolding k .
  then have "q < k"
    by (rule mult_less_cancel2 [THEN iffD1, THEN conjunct2])
  moreover from hi have "k * 2 ^ e < (q + 1) * 2 ^ e" unfolding k .
  then have "k < q + 1"
    by (rule mult_less_cancel2 [THEN iffD1, THEN conjunct2])
  ultimately show False by simp
qed

lemma float64_nearest:
  assumes "representable y"
  shows "\<bar>int (float64 x) - int (unat x)\<bar> \<le> \<bar>int y - int (unat x)\<bar>"
proof (cases "unat x < 2 ^ 53")
  case True
  then show ?thesis by (simp add: float64_def)
next
  case False
  then have big: "2 ^ 53 \<le> unat x" by simp
  define e where "e = bit_len (unat x) - 53"
  define q where "q = unat x div 2 ^ e"
  define r where "r = unat x mod 2 ^ e"
  have n: "unat x = q * 2 ^ e + r"
    using div_mult_mod_eq [of "unat x" "2 ^ e"] by (simp add: q_def r_def)
  have d: "\<bar>int (float64 x) - int (unat x)\<bar> \<le> int r"
    "\<bar>int (float64 x) - int (unat x)\<bar> \<le> int (2 ^ e) - int r"
    using float64_distance [OF big] by (simp_all add: e_def q_def r_def)
  from no_float_between [OF big e_def q_def assms]
  show ?thesis
  proof
    assume "y \<le> q * 2 ^ e"
    then have "int r \<le> \<bar>int y - int (unat x)\<bar>"
      using n by (rule far_below)
    with d(1) show ?thesis by simp
  next
    assume "(q + 1) * 2 ^ e \<le> y"
    then have "q * 2 ^ e + 2 ^ e \<le> y" by simp
    moreover have "r < 2 ^ e" by (simp add: r_def)
    ultimately have "int (2 ^ e) - int r \<le> \<bar>int y - int (unat x)\<bar>"
      using n by (intro far_above)
    with d(2) show ?thesis by simp
  qed
qed

text \<open>The result of the conversion is itself representable.\<close>

lemma representable_small:
  assumes "n < 2 ^ 53"
  shows "representable n"
proof -
  have "bit_len n \<le> 53"
    using assms by (rule bit_len_le)
  moreover have "(2::nat) ^ 53 < 2 ^ 1024"
    by (rule power_strict_increasing) simp_all
  with assms have "n < 2 ^ 1024"
    by (rule less_trans)
  ultimately show ?thesis
    by (simp add: representable_def del: power_numeral)
qed

lemma representable_multiple:
  assumes "2 ^ 52 \<le> m" and "m < 2 ^ 53" and "e \<le> 12"
  shows "representable (m * 2 ^ e)"
proof -
  have "2 ^ 52 * 2 ^ e \<le> m * (2::nat) ^ e"
    using assms(1) by (rule mult_le_mono1)
  then have lower: "2 ^ (e + 53 - 1) \<le> m * (2::nat) ^ e"
    by (simp add: power_add mult.commute del: power_numeral)
  have "m * 2 ^ e < 2 ^ 53 * (2::nat) ^ e"
    using assms(2) by (simp del: power_numeral)
  then have upper: "m * 2 ^ e < (2::nat) ^ (e + 53)"
    by (simp add: power_add mult.commute del: power_numeral)
  from lower upper have "bit_len (m * 2 ^ e) = e + 53"
    by (rule bit_len_eqI) simp
  moreover have "(2::nat) ^ (e + 53) \<le> 2 ^ 1024"
    using assms(3) by (intro power_increasing) simp_all
  with upper have "m * 2 ^ e < 2 ^ 1024"
    by (rule less_le_trans)
  ultimately show ?thesis
    by (simp add: representable_def del: power_numeral)
qed

lemma representable_power:
  assumes "e \<le> 11"
  shows "representable (2 ^ 53 * 2 ^ e)"
proof -
  have "representable (2 ^ 52 * 2 ^ (e + 1))"
    using assms by (intro representable_multiple) (simp_all del: power_numeral)
  moreover have "(2::nat) ^ 52 * 2 ^ (e + 1) = 2 ^ 53 * 2 ^ e"
    by simp
  ultimately show ?thesis by (simp only:)
qed

lemma float64_representable: "representable (float64 x)"
proof (cases "unat x < 2 ^ 53")
  case True
  then have "float64 x = unat x" by (simp add: float64_def)
  with True show ?thesis by (simp only: representable_small)
next
  case False
  then have big: "2 ^ 53 \<le> unat x" by simp
  define e where "e = bit_len (unat x) - 53"
  define q where "q = unat x div 2 ^ e"
  note sb = significand_bounds [OF big e_def]
  have "unat x < 2 ^ 64"
    using unsigned_less [of x, where 'a = nat] by simp
  then have "bit_len (unat x) \<le> 64" by (rule bit_len_le)
  with sb(2) have e11: "e \<le> 11" by simp
  from float64_distance [OF big]
  have "float64 x = q * 2 ^ e \<or> float64 x = (q + 1) * 2 ^ e"
    by (simp add: e_def q_def)
  then show ?thesis
  proof
    assume "float64 x = q * 2 ^ e"
    moreover have "representable (q * 2 ^ e)"
      using sb(3,4) e11 unfolding q_def by (intro representable_multiple) simp_all
    ultimately show ?thesis by simp
  next
    assume fx: "float64 x = (q + 1) * 2 ^ e"
    show ?thesis
    proof (cases "q + 1 < 2 ^ 53")
      case True
      moreover have "2 ^ 52 \<le> q + 1"
        using sb(3) unfolding q_def by simp
      ultimately have "representable ((q + 1) * 2 ^ e)"
        using e11 by (intro representable_multiple) simp_all
      with fx show ?thesis by simp
    next
      case False
      with sb(4) have "q + 1 = 2 ^ 53"
        unfolding q_def by simp
      with fx have "float64 x = 2 ^ 53 * 2 ^ e" by (simp only:)
      with representable_power [OF e11] show ?thesis by (simp only:)
    qed
  qed
qed

lemma representable_example: "representable (2 ^ 53 + 2)"
proof -
  have "representable ((2 ^ 52 + 1) * 2 ^ 1)"
    by (rule representable_multiple) simp_all
  then show ?thesis by simp
qed

text \<open>Up to \<open>2 ^ 53\<close> the conversion is exact; one above, it is not.\<close>

lemma float64_exact:
  assumes "unat x \<le> 2 ^ 53"
  shows "float64 x = unat x"
proof (cases "unat x < 2 ^ 53")
  case True
  then show ?thesis by (simp add: float64_def)
next
  case False
  with assms have "unat x = 2 ^ 53" by simp
  then show ?thesis
    using bit_len_2_53 by (simp add: float64_def)
qed

lemma float64_inexact: "float64 (2 ^ 53 + 1) = 2 ^ 53 \<and> unat (2 ^ 53 + 1 :: uint64) = 2 ^ 53 + 1"
  by (simp add: float64_def bit_len.simps)

text \<open>The same set of numbers, by significand and exponent.\<close>

lemma representable_iff:
  "representable x \<longleftrightarrow> x < 2 ^ 1024 \<and> (\<exists>m k. m < 2 ^ 53 \<and> x = m * 2 ^ k)"
proof
  assume r: "representable x"
  define e where "e = bit_len x - 53"
  from r have "x mod 2 ^ e = 0" and bound: "x < 2 ^ 1024"
    by (simp_all add: representable_def e_def del: power_numeral)
  then have x: "x = x div 2 ^ e * 2 ^ e"
    by (simp add: mod_eq_0_iff_dvd)
  have "x div 2 ^ e < 2 ^ 53"
  proof (cases "x = 0")
    case True
    then show ?thesis by simp
  next
    case False
    then have "x < 2 ^ bit_len x"
      using bit_len_bounds by simp
    also have "(2::nat) ^ bit_len x \<le> 2 ^ (53 + e)"
      by (rule power_increasing) (simp_all add: e_def)
    finally have "x < 2 ^ 53 * 2 ^ e"
      by (simp add: power_add del: power_numeral)
    then show ?thesis
      by (simp add: less_mult_imp_div_less del: power_numeral)
  qed
  with x bound show "x < 2 ^ 1024 \<and> (\<exists>m k. m < 2 ^ 53 \<and> x = m * 2 ^ k)"
    by blast
next
  assume "x < 2 ^ 1024 \<and> (\<exists>m k. m < 2 ^ 53 \<and> x = m * 2 ^ k)"
  then obtain m k where bound: "x < 2 ^ 1024" and m: "m < 2 ^ 53" and x: "x = m * 2 ^ k"
    by blast
  show "representable x"
  proof (cases "m = 0")
    case True
    with x bound show ?thesis
      by (simp add: representable_def del: power_numeral)
  next
    case False
    then have "bit_len x = bit_len m + k"
      unfolding x by (intro bit_len_shift) simp
    moreover have "bit_len m \<le> 53"
      using m by (rule bit_len_le)
    ultimately have "bit_len x - 53 \<le> k" by simp
    then have "(2::nat) ^ (bit_len x - 53) dvd 2 ^ k"
      by (rule le_imp_power_dvd)
    then have "2 ^ (bit_len x - 53) dvd x"
      unfolding x by (rule dvd_mult)
    with bound show ?thesis
      by (simp add: representable_def mod_eq_0_iff_dvd del: power_numeral)
  qed
qed

subsection \<open>Sequences of statements that do not panic\<close>

lemma seq_appends:
  assumes "\<And>s t. s \<in> set ss \<Longrightarrow> s t = (t @ g s, None)"
  shows "seq ss t = (t @ concat (map g ss), None)"
  using assms
proof (induction ss arbitrary: t)
  case Nil
  show ?case by simp
next
  case (Cons a ss)
  have "a t = (t @ g a, None)"
    by (rule Cons.prems) simp
  moreover have "seq ss (t @ g a) = ((t @ g a) @ concat (map g ss), None)"
  proof (rule Cons.IH)
    fix s t assume "s \<in> set ss"
    then have "s \<in> set (a # ss)" by simp
    then show "s t = (t @ g s, None)" by (rule Cons.prems)
  qed
  ultimately show ?case by simp
qed

lemma for_range_appends:
  assumes "\<And>x t. x \<in> set xs \<Longrightarrow> body x t = (t @ g x, None)"
  shows "for_range xs body t = (t @ concat (map g xs), None)"
  using assms unfolding for_range_def
proof (induction xs arbitrary: t)
  case Nil
  show ?case by simp
next
  case (Cons a xs)
  have "body a t = (t @ g a, None)"
    by (rule Cons.prems) simp
  moreover have "seq (map body xs) (t @ g a) = ((t @ g a) @ concat (map g xs), None)"
  proof (rule Cons.IH)
    fix x t assume "x \<in> set xs"
    then have "x \<in> set (a # xs)" by simp
    then show "body x t = (t @ g x, None)" by (rule Cons.prems)
  qed
  ultimately show ?case by simp
qed

lemma sent_simps:
  "sent [] = []"
  "sent (MutexLock # t) = sent t"
  "sent (MutexUnlock # t) = sent t"
  "sent (SendDesc d # t) = sent t"
  "sent (SendMetric m # t) = m # sent t"
  by (simp_all add: sent_def)

lemma sent_append: "sent (a @ b) = sent a @ sent b"
  by (simp add: sent_def)

lemma sent_sends: "sent (map SendMetric ms) = ms"
  by (induction ms) (simp_all add: sent_def)

subsection \<open>The samples of one record\<close>

lemma desc_labels:
  "length (variableLabels flowsReceived) = 3"
  "length (variableLabels packetsReceived) = 3"
  "length (variableLabels bytesReceived) = 3"
  by (simp_all add: flowsReceived_def packetsReceived_def bytesReceived_def NewDesc_def)

lemma desc_valid:
  "descErr uptime_desc = None"
  "descErr flowsReceived = None"
  "descErr packetsReceived = None"
  "descErr bytesReceived = None"
  by (simp_all add: uptime_desc_def flowsReceived_def packetsReceived_def bytesReceived_def
      NewDesc_def BuildFQName_def namespace_def IsValidMetricName_def checkLabelName_def
      is_letter_def is_digit_def between_def byte_def)

lemma desc_distinct:
  "flowsReceived \<noteq> bytesReceived" "packetsReceived \<noteq> bytesReceived"
  "flowsReceived \<noteq> uptime_desc" "packetsReceived \<noteq> uptime_desc" "bytesReceived \<noteq> uptime_desc"
  by (simp_all add: flowsReceived_def packetsReceived_def bytesReceived_def uptime_desc_def
      NewDesc_def BuildFQName_def namespace_def)

lemma send_metric_ok:
  "descErr d = None \<Longrightarrow> length lvs = length (variableLabels d) \<Longrightarrow> list_all ValidString lvs \<Longrightarrow>
   send_metric d vt v lvs t = (t @ [SendMetric \<lparr>desc = d, valType = vt, val = v, labelValues = lvs\<rparr>], None)"
  by (simp add: send_metric_def MustNewConstMetric_def list_all_iff filter_empty_conv[THEN iffD2])

lemma send_counter_ok:
  assumes "ValidString i" "ValidString p" "length (variableLabels d) = 3" "descErr d = None"
  shows "send_metric d vt v [i, formatBits u 10 [], p] t =
     (t @ [SendMetric \<lparr>desc = d, valType = vt, val = v, labelValues = [i, formatBits u 10 [], p]\<rparr>], None)"
  by (rule send_metric_ok) (simp_all add: assms ValidString_formatBits)

lemma collect_metric_ok:
  assumes "ValidString i"
  shows "collect_metric i m t =
    (t @ map SendMetric
      [\<lparr>desc = flowsReceived, valType = CounterValue, val = float64 (numFlows_tcp m), labelValues = [i, formatBits (unat (exporterID m)) 10 [], ''tcp'']\<rparr>,
       \<lparr>desc = flowsReceived, valType = CounterValue, val = float64 (numFlows_udp m), labelValues = [i, formatBits (unat (exporterID m)) 10 [], ''udp'']\<rparr>,
       \<lparr>desc = flowsReceived, valType = CounterValue, val = float64 (numFlows_icmp m), labelValues = [i, formatBits (unat (exporterID m)) 10 [], ''icmp'']\<rparr>,
       \<lparr>desc = flowsReceived, valType = CounterValue, val = float64 (numFlows_other m), labelValues = [i, formatBits (unat (exporterID m)) 10 [], ''other'']\<rparr>,
       \<lparr>desc = packetsReceived, valType = CounterValue, val = float64 (numPackets_tcp m), labelValues = [i, formatBits (unat (exporterID m)) 10 [], ''tcp'']\<rparr>,
       \<lparr>desc = packetsReceived, valType = CounterValue, val = float64 (numPackets_udp m), labelValues = [i, formatBits (unat (exporterID m)) 10 [], ''udp'']\<rparr>,
       \<lparr>desc = packetsReceived, valType = CounterValue, val = float64 (numPackets_icmp m), labelValues = [i, formatBits (unat (exporterID m)) 10 [], ''icmp'']\<rparr>,
       \<lparr>desc = packetsReceived, valType = CounterValue, val = float64 (numPackets_other m), labelValues = [i, formatBits (unat (exporterID m)) 10 [], ''other'']\<rparr>,
       \<lparr>desc = bytesReceived, valType = CounterValue, val = float64 (numBytes_tcp m), labelValues = [i, formatBits (unat (exporterID m)) 10 [], ''tcp'']\<rparr>,
       \<lparr>desc = bytesReceived, valType = CounterValue, val = float64 (numBytes_udp m), labelValues = [i, formatBits (unat (exporterID m)) 10 [], ''udp'']\<rparr>,
       \<lparr>desc = bytesReceived, valType = CounterValue, val = float64 (numPackets_icmp m), labelValues = [i, formatBits (unat (exporterID m)) 10 [], ''icmp'']\<rparr>,
       \<lparr>desc = bytesReceived, valType = CounterValue, val = float64 (numPackets_other m), labelValues = [i, formatBits (unat (exporterID m)) 10 [], ''other'']\<rparr>],
     None)"
  by (simp add: collect_metric_def FormatUint_10 send_counter_ok desc_labels desc_valid byte_def assms)

lemma collect_metric_sent:
  assumes "ValidString i"
  shows "collect_metric i m t = (t @ map SendMetric (sent (fst (collect_metric i m []))), None)"
  by (simp only: collect_metric_ok [OF assms] fst_conv append_Nil sent_sends)

lemma collect_metric_labels:
  assumes "ValidString i"
  shows "map (\<lambda>s. (desc s, valType s, labelValues s)) (sent (fst (collect_metric i m []))) =
     concat (map (\<lambda>d. map (\<lambda>proto. (d, CounterValue, [i, formatBits (unat (exporterID m)) 10 [], proto]))
                           [''tcp'', ''udp'', ''icmp'', ''other''])
                 [flowsReceived, packetsReceived, bytesReceived])"
  by (simp add: collect_metric_ok [OF assms] sent_simps)

lemma collect_metric_length:
  assumes "ValidString i"
  shows "length (sent (fst (collect_metric i m []))) = 12"
  by (simp add: collect_metric_ok [OF assms] sent_simps)

lemma collect_metric_counters:
  assumes "ValidString i"
  shows "list_all (\<lambda>s. desc s \<noteq> uptime_desc \<and> valType s = CounterValue) (sent (fst (collect_metric i m [])))"
  by (simp add: collect_metric_ok [OF assms] sent_simps desc_distinct)

lemma collect_metric_values:
  assumes "ValidString i"
  shows "map val (sent (fst (collect_metric i m []))) =
     map float64
       [numFlows_tcp m, numFlows_udp m, numFlows_icmp m, numFlows_other m,
        numPackets_tcp m, numPackets_udp m, numPackets_icmp m, numPackets_other m,
        numBytes_tcp m, numBytes_udp m, numPackets_icmp m, numPackets_other m]"
  by (simp add: collect_metric_ok [OF assms] sent_simps)

subsection \<open>The samples of a whole store\<close>

lemma collect_records_ok:
  assumes "ValidString i"
  shows "for_range ms (\<lambda>metric. collect_metric i metric) t =
    (t @ concat (map (\<lambda>m. map SendMetric (sent (fst (collect_metric i m [])))) ms), None)"
  by (rule for_range_appends) (rule collect_metric_sent [OF assms])

lemma Exporter_Collect_ok:
  assumes "list_all (\<lambda>p. ValidString (fst p)) metricList"
  shows "Exporter_Collect metricList t =
    (t @ MutexLock #
       map SendMetric
         (concat (map (\<lambda>p. concat (map (\<lambda>m. sent (fst (collect_metric (fst p) m []))) (snd p))) metricList)) @
       [MutexUnlock], None)"
proof -
  let ?g = "\<lambda>p. concat (map (\<lambda>m. map SendMetric (sent (fst (collect_metric (fst p) m [])))) (snd p))"
  have loop: "for_range metricList
      (\<lambda>(ident', metrics). for_range metrics (\<lambda>metric. collect_metric ident' metric)) u =
      (u @ concat (map ?g metricList), None)" for u
  proof (rule for_range_appends)
    fix x :: "string \<times> metric list" and t
    assume "x \<in> set metricList"
    with assms have "ValidString (fst x)"
      by (simp add: list_all_iff)
    then show "(case x of (ident', metrics) \<Rightarrow> for_range metrics (\<lambda>metric. collect_metric ident' metric)) t =
      (t @ ?g x, None)"
      by (cases x) (simp add: collect_records_ok)
  qed
  have "concat (map ?g metricList) =
    map SendMetric (concat (map (\<lambda>p. concat (map (\<lambda>m. sent (fst (collect_metric (fst p) m []))) (snd p))) metricList))"
    by (simp add: map_concat comp_def)
  then show ?thesis
    by (simp add: Exporter_Collect_def mutex_Lock_def mutex_Unlock_def loop)
qed

lemma sent_Exporter_Collect:
  assumes "list_all (\<lambda>p. ValidString (fst p)) metricList"
  shows "sent (fst (Exporter_Collect metricList [])) =
     concat (map (\<lambda>p. concat (map (\<lambda>m. sent (fst (collect_metric (fst p) m []))) (snd p))) metricList)"
  by (simp add: Exporter_Collect_ok [OF assms] sent_simps sent_append sent_sends)

lemma length_concat_const:
  assumes "\<And>x. x \<in> set xs \<Longrightarrow> length (f x) = k"
  shows "length (concat (map f xs)) = k * length xs"
  using assms by (induction xs) simp_all

lemma live7_trace:
  "\<exists>m post. fst (Exporter_Collect [(''live'', [live7])] []) = [MutexLock] @ SendMetric m # post"
proof -
  have v: "list_all (\<lambda>p. ValidString (fst p)) [(''live'', [live7])]"
    by (simp add: byte_def)
  show ?thesis
    by (simp add: Exporter_Collect_ok [OF v] collect_metric_ok [OF ValidString_live] sent_simps)
qed

subsection \<open>A pull on a store with one record\<close>

text \<open>With a record in the store, the lines of its families are in the answer.\<close>

lemma pull_live7:
  "\<exists>B. pull [(''live'', [live7])] [] = Body B \<and>
     HelpLine ''nfsen_collector_flows''
       ''How many flows have been received (per ident and protocol (tcp/udp/icmp/other)).'' \<in> B \<and>
     TypeLine ''nfsen_collector_flows'' CounterValue \<in> B \<and>
     SampleLine ''nfsen_collector_flows''
       [(''ident'', ''live''), (''exporter'', ''7''), (''proto'', ''tcp'')] 100 \<in> B"
proof -
  have v: "list_all (\<lambda>p. ValidString (fst p)) [(''live'', [live7])]"
    by (simp add: byte_def)
  have seven: "formatBits (unat (exporterID live7)) 10 [] = ''7''"
    by (simp add: live7_def formatBits.simps digit_char_def)
  have names: "fqName flowsReceived = ''nfsen_collector_flows''"
    "fqName packetsReceived = ''nfsen_collector_packets''"
    "fqName bytesReceived = ''nfsen_collector_bytes''"
    "helpText flowsReceived = ''How many flows have been received (per ident and protocol (tcp/udp/icmp/other)).''"
    "variableLabels flowsReceived = [''ident'', ''exporter'', ''proto'']"
    by (simp_all add: flowsReceived_def packetsReceived_def bytesReceived_def NewDesc_def
        BuildFQName_def namespace_def)
  have hundred: "float64 (numFlows_tcp live7) = 100"
    by (simp add: float64_small live7_def)
  show ?thesis
    by (simp add: pull_def Exporter_Collect_ok [OF v] collect_metric_ok [OF ValidString_live]
        sent_simps sent_append sent_sends seven names hundred expose_def lines_of_def)
qed

subsection \<open>The shape of the trace, panic or not\<close>

lemma send_metric_trace:
  assumes "d \<noteq> uptime_desc"
  shows "\<exists>ms. fst (send_metric d CounterValue (float64 x) lvs t) = t @ map SendMetric ms \<and>
     list_all (\<lambda>m. (\<exists>x. val m = float64 x) \<and> valType m = CounterValue \<and> desc m \<noteq> uptime_desc) ms"
proof (cases "MustNewConstMetric d CounterValue (float64 x) lvs")
  case (Inl e)
  then have "fst (send_metric d CounterValue (float64 x) lvs t) = t @ map SendMetric [] \<and>
     list_all (\<lambda>m. (\<exists>x. val m = float64 x) \<and> valType m = CounterValue \<and> desc m \<noteq> uptime_desc) []"
    by (simp add: send_metric_def)
  then show ?thesis ..
next
  case (Inr m)
  then have "val m = float64 x \<and> valType m = CounterValue \<and> desc m = d"
    by (auto simp: MustNewConstMetric_def split: option.splits if_splits list.splits)
  with Inr assms have "fst (send_metric d CounterValue (float64 x) lvs t) = t @ map SendMetric [m] \<and>
     list_all (\<lambda>m. (\<exists>x. val m = float64 x) \<and> valType m = CounterValue \<and> desc m \<noteq> uptime_desc) [m]"
    by (auto simp: send_metric_def)
  then show ?thesis ..
qed

lemma seq_trace:
  assumes "\<And>s t. s \<in> set ss \<Longrightarrow> \<exists>ms. fst (s t) = t @ map SendMetric ms \<and> list_all P ms"
  shows "\<exists>ms. fst (seq ss t) = t @ map SendMetric ms \<and> list_all P ms"
  using assms
proof (induction ss arbitrary: t)
  case Nil
  have "fst (seq [] t) = t @ map SendMetric [] \<and> list_all P []" by simp
  then show ?case ..
next
  case (Cons a ss)
  obtain ms where a: "fst (a t) = t @ map SendMetric ms" and ms: "list_all P ms"
    using Cons.prems [of a t] by auto
  show ?case
  proof (cases "snd (a t)")
    case None
    then have "seq (a # ss) t = seq ss (t @ map SendMetric ms)"
      using a by (cases "a t") simp
    moreover obtain ms' where "fst (seq ss (t @ map SendMetric ms)) = (t @ map SendMetric ms) @ map SendMetric ms'"
      and "list_all P ms'"
      using Cons.IH [of "t @ map SendMetric ms"] Cons.prems by auto
    ultimately have "fst (seq (a # ss) t) = t @ map SendMetric (ms @ ms') \<and> list_all P (ms @ ms')"
      using ms by simp
    then show ?thesis ..
  next
    case (Some e)
    then have "fst (seq (a # ss) t) = t @ map SendMetric ms \<and> list_all P ms"
      using a ms by (cases "a t") simp
    then show ?thesis ..
  qed
qed

lemma collect_metric_trace:
  "\<exists>ms. fst (collect_metric i m t) = t @ map SendMetric ms \<and>
     list_all (\<lambda>m. (\<exists>x. val m = float64 x) \<and> valType m = CounterValue \<and> desc m \<noteq> uptime_desc) ms"
  unfolding collect_metric_def FormatUint_10 sum.case
  by (rule seq_trace) (auto simp: send_metric_trace desc_distinct)

lemma for_range_trace:
  assumes "\<And>x t. x \<in> set xs \<Longrightarrow> \<exists>ms. fst (body x t) = t @ map SendMetric ms \<and> list_all P ms"
  shows "\<exists>ms. fst (for_range xs body t) = t @ map SendMetric ms \<and> list_all P ms"
  unfolding for_range_def using assms by (intro seq_trace) auto

lemma collect_loop_trace:
  "\<exists>ms. fst (for_range metricList (\<lambda>(ident', metrics).
      for_range metrics (\<lambda>metric. collect_metric ident' metric)) t) = t @ map SendMetric ms \<and>
     list_all (\<lambda>m. (\<exists>x. val m = float64 x) \<and> valType m = CounterValue \<and> desc m \<noteq> uptime_desc) ms"
  by (rule for_range_trace) (auto intro!: for_range_trace collect_metric_trace)

lemma Exporter_Collect_trace:
  "\<exists>ms. fst (Exporter_Collect metricList t) =
     t @ MutexLock # map SendMetric ms @
       (case snd (Exporter_Collect metricList t) of None \<Rightarrow> [MutexUnlock] | Some e \<Rightarrow> []) \<and>
     list_all (\<lambda>m. (\<exists>x. val m = float64 x) \<and> valType m = CounterValue \<and> desc m \<noteq> uptime_desc) ms"
proof -
  let ?loop = "for_range metricList (\<lambda>(ident', metrics).
      for_range metrics (\<lambda>metric. collect_metric ident' metric))"
  obtain ms where ms: "fst (?loop (t @ [MutexLock])) = (t @ [MutexLock]) @ map SendMetric ms"
    and vals: "list_all (\<lambda>m. (\<exists>x. val m = float64 x) \<and> valType m = CounterValue \<and> desc m \<noteq> uptime_desc) ms"
    using collect_loop_trace [of metricList "t @ [MutexLock]"] by auto
  have "fst (Exporter_Collect metricList t) =
     t @ MutexLock # map SendMetric ms @
       (case snd (Exporter_Collect metricList t) of None \<Rightarrow> [MutexUnlock] | Some e \<Rightarrow> [])"
    using ms
    by (cases "?loop (t @ [MutexLock])"; cases "snd (?loop (t @ [MutexLock]))")
       (simp_all add: Exporter_Collect_def mutex_Lock_def mutex_Unlock_def)
  with vals show ?thesis by blast
qed

lemma sent_counters:
  "list_all (\<lambda>m. (\<exists>x. val m = float64 x) \<and> valType m = CounterValue \<and> desc m \<noteq> uptime_desc) (sent (fst (Exporter_Collect metricList [])))"
proof -
  obtain ms where "fst (Exporter_Collect metricList []) =
     [] @ MutexLock # map SendMetric ms @
       (case snd (Exporter_Collect metricList []) of None \<Rightarrow> [MutexUnlock] | Some e \<Rightarrow> [])"
    and vals: "list_all (\<lambda>m. (\<exists>x. val m = float64 x) \<and> valType m = CounterValue \<and> desc m \<noteq> uptime_desc) ms"
    using Exporter_Collect_trace [of metricList "[]"] by blast
  then have "sent (fst (Exporter_Collect metricList [])) = ms"
    by (cases "snd (Exporter_Collect metricList [])")
       (simp_all add: sent_simps sent_append sent_sends)
  with vals show ?thesis by simp
qed

lemma held_sends: "foldl (\<lambda>h e. case e of MutexLock \<Rightarrow> True | MutexUnlock \<Rightarrow> False | _ \<Rightarrow> h) h (map SendMetric ms) = h"
  by (induction ms) simp_all

lemma held_locked_sends: "held (MutexLock # map SendMetric ms)"
  by (simp add: held_def held_sends)

lemma sends_prefix:
  assumes "pre @ SendMetric m # post = map SendMetric ms @ rest"
    and "rest = [] \<or> rest = [MutexUnlock]"
  shows "\<exists>ms'. pre = map SendMetric ms'"
proof -
  have "length pre < length ms"
  proof (rule ccontr)
    assume "\<not> length pre < length ms"
    then have le: "length ms \<le> length pre" by simp
    have "length (pre @ SendMetric m # post) = length (map SendMetric ms @ rest)"
      using assms(1) by (rule arg_cong)
    then have len: "length pre < length ms + length rest"
      by simp
    have "(pre @ SendMetric m # post) ! length pre = SendMetric m" by simp
    then have "(map SendMetric ms @ rest) ! length pre = SendMetric m"
      using assms(1) by simp
    with le len assms(2) show False
      by (auto simp: nth_append split: if_splits)
  qed
  then have "pre = take (length pre) (map SendMetric ms @ rest)"
    using assms(1) by (metis append_eq_conv_conj)
  also have "\<dots> = map SendMetric (take (length pre) ms)"
    using \<open>length pre < length ms\<close> by (simp add: take_map)
  finally show ?thesis ..
qed

subsection \<open>The store\<close>

lemma upsert_records_present:
  "distinct (map exporterID ms) \<Longrightarrow> r \<in> set ms \<Longrightarrow> upsert_records r ms = ms"
proof (induction ms)
  case Nil
  then show ?case by simp
next
  case (Cons m ms)
  show ?case
  proof (cases "exporterID m = exporterID r")
    case True
    have "r = m"
    proof (rule ccontr)
      assume "r \<noteq> m"
      with Cons.prems(2) have "r \<in> set ms" by simp
      then have "exporterID r \<in> set (map exporterID ms)" by simp
      with True Cons.prems(1) show False by simp
    qed
    with True show ?thesis by simp
  next
    case False
    then have "r \<noteq> m" by auto
    with Cons.prems(2) have "r \<in> set ms" by simp
    with Cons False show ?thesis by simp
  qed
qed

lemma upsert_records_ids:
  "set (map exporterID (upsert_records r ms)) = insert (exporterID r) (set (map exporterID ms))"
  by (induction ms) auto

lemma upsert_records_distinct:
  "distinct (map exporterID ms) \<Longrightarrow> distinct (map exporterID (upsert_records r ms))"
proof (induction ms)
  case Nil
  then show ?case by simp
next
  case (Cons m ms)
  then show ?case
    using upsert_records_ids [of r ms] by auto
qed

lemma upsert_records_set: "set (upsert_records r ms) \<subseteq> insert r (set ms)"
  by (induction ms) auto

lemma upsert_records_filter:
  "distinct (map exporterID ms) \<Longrightarrow>
   filter (\<lambda>m. exporterID m = exporterID r) (upsert_records r ms) = [r]"
proof (induction ms)
  case Nil
  then show ?case by simp
next
  case (Cons m ms)
  show ?case
  proof (cases "exporterID m = exporterID r")
    case True
    with Cons.prems have "\<forall>x\<in>set ms. exporterID x \<noteq> exporterID r"
      by (auto simp: image_iff)
    then have "filter (\<lambda>m. exporterID m = exporterID r) ms = []"
      by (simp add: filter_empty_conv)
    with True show ?thesis by simp
  next
    case False
    with Cons show ?thesis by simp
  qed
qed

lemma Upsert_keys:
  "set (map fst (Upsert r s)) = insert (ident r) (set (map fst s))"
proof (induction s)
  case Nil
  show ?case by simp
next
  case (Cons p s)
  obtain i ms where p: "p = (i, ms)" by (cases p)
  show ?case
  proof (cases "i = ident r")
    case True
    with p show ?thesis by simp
  next
    case False
    with p Cons show ?thesis by auto
  qed
qed

lemma Upsert_keys_distinct:
  "distinct (map fst s) \<Longrightarrow> distinct (map fst (Upsert r s))"
proof (induction s)
  case Nil
  then show ?case by simp
next
  case (Cons p s)
  then show ?case
    using Upsert_keys [of r s] by (cases p) auto
qed

lemma store_inv_Nil: "store_inv []"
  by (simp add: store_inv_def)

lemma store_inv_Cons:
  "store_inv (p # s) \<longleftrightarrow>
     fst p \<notin> set (map fst s) \<and> distinct (map exporterID (snd p)) \<and>
     (\<forall>m\<in>set (snd p). ident m = fst p) \<and> store_inv s"
  by (auto simp: store_inv_def list_all_iff)

lemma store_inv_Upsert: "store_inv s \<Longrightarrow> store_inv (Upsert r s)"
proof (induction s)
  case Nil
  then show ?case by (simp add: store_inv_def)
next
  case (Cons p s)
  obtain i ms where p: "p = (i, ms)" by (cases p)
  show ?case
  proof (cases "i = ident r")
    case True
    have "\<forall>m\<in>set (upsert_records r ms). ident m = i"
      using upsert_records_set [of r ms] Cons.prems True p
      by (auto simp: store_inv_Cons)
    with Cons.prems True p show ?thesis
      by (simp add: store_inv_Cons upsert_records_distinct)
  next
    case False
    with Cons p show ?thesis
      using Upsert_keys [of r s] by (auto simp: store_inv_Cons)
  qed
qed

lemma store_inv_foldl: "store_inv s \<Longrightarrow> store_inv (foldl (\<lambda>s r. Upsert r s) s rs)"
  by (induction rs arbitrary: s) (simp_all add: store_inv_Upsert)

lemma store_inv_reports: "store_inv (reports rs)"
  unfolding reports_def by (rule store_inv_foldl) (rule store_inv_Nil)

lemma Upsert_present:
  "store_inv s \<Longrightarrow> present r s \<Longrightarrow> Upsert r s = s"
proof (induction s)
  case Nil
  then show ?case by (simp add: present_def)
next
  case (Cons p s)
  obtain i ms where p: "p = (i, ms)" by (cases p)
  show ?case
  proof (cases "i = ident r")
    case True
    from Cons.prems(1) p True have "ident r \<notin> set (map fst s)"
      by (simp add: store_inv_Cons)
    then have "\<not> present r s"
      by (auto simp: present_def list_ex_iff image_iff)
    with Cons.prems(2) p True have "r \<in> set ms"
      by (simp add: present_def)
    moreover from Cons.prems(1) p have "distinct (map exporterID ms)"
      by (simp add: store_inv_Cons)
    ultimately have "upsert_records r ms = ms"
      by (simp add: upsert_records_present)
    with p True show ?thesis by simp
  next
    case False
    with Cons.prems p have "present r s" "store_inv s"
      by (simp_all add: present_def store_inv_Cons)
    with Cons.IH False p show ?thesis by simp
  qed
qed

lemma records_of_Nil: "records_of [] i e = []"
  by (simp add: records_of_def)

lemma records_of_Cons:
  "records_of ((j, ms) # s) i e =
     (if j = i then filter (\<lambda>m. exporterID m = e) ms @ records_of s i e else records_of s i e)"
  by (simp add: records_of_def)

lemma records_of_absent: "i \<notin> set (map fst s) \<Longrightarrow> records_of s i e = []"
  by (induction s) (auto simp: records_of_Nil records_of_Cons)

lemma records_of_Upsert:
  "store_inv s \<Longrightarrow> records_of (Upsert r s) (ident r) (exporterID r) = [r]"
proof (induction s)
  case Nil
  then show ?case by (simp add: records_of_Cons records_of_Nil)
next
  case (Cons p s)
  obtain i ms where p: "p = (i, ms)" by (cases p)
  show ?case
  proof (cases "i = ident r")
    case True
    with Cons.prems p have "records_of s (ident r) (exporterID r) = []"
      by (simp add: store_inv_Cons records_of_absent)
    moreover from Cons.prems p have "distinct (map exporterID ms)"
      by (simp add: store_inv_Cons)
    ultimately show ?thesis
      using True p by (simp add: records_of_Cons upsert_records_filter)
  next
    case False
    with Cons p show ?thesis
      by (simp add: records_of_Cons store_inv_Cons)
  qed
qed

lemma filter_distinct_key:
  "distinct (map f xs) \<Longrightarrow> length (filter (\<lambda>x. f x = k) xs) \<le> 1"
proof (induction xs)
  case Nil
  then show ?case by simp
next
  case (Cons x xs)
  show ?case
  proof (cases "f x = k")
    case True
    with Cons.prems have "\<forall>y\<in>set xs. f y \<noteq> k" by (auto simp: image_iff)
    then have "filter (\<lambda>x. f x = k) xs = []"
      by (simp add: filter_empty_conv)
    with True show ?thesis by simp
  next
    case False
    with Cons show ?thesis by simp
  qed
qed

lemma records_of_unique: "store_inv s \<Longrightarrow> length (records_of s i e) \<le> 1"
proof (induction s)
  case Nil
  then show ?case by (simp add: records_of_Nil)
next
  case (Cons p s)
  obtain j ms where p: "p = (j, ms)" by (cases p)
  show ?case
  proof (cases "j = i")
    case True
    with Cons.prems p have "records_of s i e = []"
      by (simp add: store_inv_Cons records_of_absent)
    moreover from Cons.prems p have "distinct (map exporterID ms)"
      by (simp add: store_inv_Cons)
    then have "length (filter (\<lambda>m. exporterID m = e) ms) \<le> 1"
      by (rule filter_distinct_key)
    ultimately show ?thesis
      using True p by (simp add: records_of_Cons)
  next
    case False
    with Cons p show ?thesis
      by (simp add: records_of_Cons store_inv_Cons)
  qed
qed

text \<open>A report leaves the records of every other pair of ident and exporterID as they were.\<close>

lemma upsert_records_other:
  "e \<noteq> exporterID r \<Longrightarrow>
   filter (\<lambda>m. exporterID m = e) (upsert_records r ms) = filter (\<lambda>m. exporterID m = e) ms"
  by (induction ms) auto

lemma records_of_Upsert_other:
  assumes "i \<noteq> ident r \<or> e \<noteq> exporterID r"
  shows "records_of (Upsert r s) i e = records_of s i e"
  using assms
proof (induction s)
  case Nil
  then show ?case
    by (auto simp: records_of_Cons records_of_Nil)
next
  case (Cons p s)
  obtain j ms where p: "p = (j, ms)" by (cases p)
  from Cons p show ?case
    by (auto simp: records_of_Cons upsert_records_other)
qed

section \<open>The claims\<close>

subsection \<open>C1: the source of the byte counters\<close>

text \<open>
  C1 asks that the four samples of the bytes metric carry the record's byte counters. The
  code does so for tcp and udp only: the icmp and other samples are built from
  \<open>numPackets_icmp\<close> and \<open>numPackets_other\<close>. For the report of the scenario with one
  icmp packet of two bytes and three other packets of four bytes, the bytes samples are
  5000, 0, 1 and 3: the last two are the packet counters, not the byte counters 2 and 4.
\<close>

theorem bytes_icmp_other_read_packet_fields:
  "map val (filter (\<lambda>s. desc s = bytesReceived)
     (sent (fst (Exporter_Collect
        [(''live'', [live7\<lparr>numPackets_icmp := 1, numPackets_other := 3,
                            numBytes_icmp := 2, numBytes_other := 4\<rparr>])] [])))) =
   [5000, 0, 1, 3]"
  by (simp add: Exporter_Collect_ok collect_metric_ok ValidString_live sent_append sent_sends
      sent_simps desc_distinct float64_small live7_def byte_def)

subsection \<open>C2: twelve counter samples per record\<close>

text \<open>
  As C2 states it, every record also yields an uptime gauge sample. \<open>Collect\<close> sends
  none: for the store holding the one report of the scenario it sends twelve samples, and
  no sample of the uptime description.
\<close>

theorem Collect_no_uptime_sample:
  "length (sent (fst (Exporter_Collect [(''live'', [live7])] []))) = 12 \<and>
   \<not> list_ex (\<lambda>s. desc s = uptime_desc) (sent (fst (Exporter_Collect [(''live'', [live7])] [])))"
  by (simp add: Exporter_Collect_ok collect_metric_ok ValidString_live sent_append sent_sends
      sent_simps desc_distinct byte_def)

text \<open>
  C2, amended: whatever the store, \<open>Collect\<close> sends no sample of the uptime
  description and no gauge. For every store whose idents are valid UTF-8, \<open>Collect\<close>
  does not panic and sends, for each record in the order of the iteration, exactly twelve
  samples: one for each of flows, packets and bytes and each of tcp, udp, icmp and other,
  all of them counters, labelled by the ident (the key of the mapping), the exporterID as
  a decimal numeral, and the protocol class. The decimal numeral is the one
  \<open>FormatUint\<close> returns for base 10: digits only, denoting the exporterID.
\<close>

theorem Collect_twelve_counters_per_record:
  "\<not> list_ex (\<lambda>s. desc s = uptime_desc \<or> valType s = GaugeValue)
       (sent (fst (Exporter_Collect metricList []))) \<and>
   (list_all (\<lambda>p. ValidString (fst p)) metricList \<longrightarrow>
    snd (Exporter_Collect metricList []) = None \<and>
    map (\<lambda>s. (desc s, valType s, labelValues s)) (sent (fst (Exporter_Collect metricList []))) =
      concat (map (\<lambda>(ident', metrics). concat (map (\<lambda>metric.
        concat (map (\<lambda>d. map (\<lambda>proto.
            (d, CounterValue, [ident', formatBits (unat (exporterID metric)) 10 [], proto]))
          [''tcp'', ''udp'', ''icmp'', ''other''])
          [flowsReceived, packetsReceived, bytesReceived])) metrics)) metricList) \<and>
    length (sent (fst (Exporter_Collect metricList []))) = 12 * length (concat (map snd metricList))) \<and>
   (\<forall>e. FormatUint e 10 = Inr (formatBits (unat e) 10 []) \<and>
        list_all is_digit (formatBits (unat e) 10 []) \<and>
        decimal (formatBits (unat e) 10 []) = unat e)"
proof -
  have "\<not> list_ex (\<lambda>s. desc s = uptime_desc \<or> valType s = GaugeValue)
       (sent (fst (Exporter_Collect metricList [])))"
    using sent_counters [of metricList] by (auto simp: list_all_iff list_ex_iff)
  moreover have "snd (Exporter_Collect metricList []) = None \<and>
    map (\<lambda>s. (desc s, valType s, labelValues s)) (sent (fst (Exporter_Collect metricList []))) =
      concat (map (\<lambda>(ident', metrics). concat (map (\<lambda>metric.
        concat (map (\<lambda>d. map (\<lambda>proto.
            (d, CounterValue, [ident', formatBits (unat (exporterID metric)) 10 [], proto]))
          [''tcp'', ''udp'', ''icmp'', ''other''])
          [flowsReceived, packetsReceived, bytesReceived])) metrics)) metricList) \<and>
    length (sent (fst (Exporter_Collect metricList []))) = 12 * length (concat (map snd metricList))"
    if v: "list_all (\<lambda>p. ValidString (fst p)) metricList"
  proof -
    have valid: "ValidString (fst p)" if "p \<in> set metricList" for p
      using v that by (simp add: list_all_iff)
    have "snd (Exporter_Collect metricList []) = None"
      by (simp add: Exporter_Collect_ok [OF v])
    moreover have "map (\<lambda>s. (desc s, valType s, labelValues s)) (sent (fst (Exporter_Collect metricList []))) =
      concat (map (\<lambda>(ident', metrics). concat (map (\<lambda>metric.
        concat (map (\<lambda>d. map (\<lambda>proto.
            (d, CounterValue, [ident', formatBits (unat (exporterID metric)) 10 [], proto]))
          [''tcp'', ''udp'', ''icmp'', ''other''])
          [flowsReceived, packetsReceived, bytesReceived])) metrics)) metricList)"
      unfolding sent_Exporter_Collect [OF v] map_concat map_map comp_def
      by (rule arg_cong [where f = concat], rule map_cong [OF refl])
         (auto simp: collect_metric_labels [OF valid] simp del: map_eq_conv intro!: arg_cong [where f = concat])
    moreover have "length (sent (fst (Exporter_Collect metricList []))) = 12 * length (concat (map snd metricList))"
      using valid unfolding sent_Exporter_Collect [OF v]
    proof (induction metricList)
      case Nil
      show ?case by simp
    next
      case (Cons p ps)
      have "length (concat (map (\<lambda>m. sent (fst (collect_metric (fst p) m []))) (snd p))) = 12 * length (snd p)"
        by (rule length_concat_const) (simp add: collect_metric_length Cons.prems)
      with Cons show ?case by simp
    qed
    ultimately show ?thesis by blast
  qed
  moreover have "FormatUint e 10 = Inr (formatBits (unat e) 10 []) \<and>
         list_all is_digit (formatBits (unat e) 10 []) \<and>
         decimal (formatBits (unat e) 10 []) = unat e" for e
    by (simp add: FormatUint_10 formatBits_digits decimal_def formatBits_decimal)
  ultimately show ?thesis by blast
qed

theorem Collect_twelve_counters_witness:
  "list_all (\<lambda>p. ValidString (fst p)) [(''live'', [live7])] \<and>
   snd (Exporter_Collect [(''live'', [live7])] []) = None \<and>
   map labelValues (sent (fst (Exporter_Collect [(''live'', [live7])] []))) =
     [[''live'', ''7'', ''tcp''], [''live'', ''7'', ''udp''], [''live'', ''7'', ''icmp''], [''live'', ''7'', ''other''],
      [''live'', ''7'', ''tcp''], [''live'', ''7'', ''udp''], [''live'', ''7'', ''icmp''], [''live'', ''7'', ''other''],
      [''live'', ''7'', ''tcp''], [''live'', ''7'', ''udp''], [''live'', ''7'', ''icmp''], [''live'', ''7'', ''other'']]"
proof -
  have v: "list_all (\<lambda>p. ValidString (fst p)) [(''live'', [live7])]"
    by (simp add: byte_def)
  have seven: "formatBits (unat (exporterID live7)) 10 [] = ''7''"
    by (simp add: live7_def formatBits.simps digit_char_def)
  from Collect_twelve_counters_per_record [of "[(''live'', [live7])]"] v
  have "snd (Exporter_Collect [(''live'', [live7])] []) = None"
    and "map (\<lambda>s. (desc s, valType s, labelValues s)) (sent (fst (Exporter_Collect [(''live'', [live7])] []))) =
      concat (map (\<lambda>(ident', metrics). concat (map (\<lambda>metric.
        concat (map (\<lambda>d. map (\<lambda>proto.
            (d, CounterValue, [ident', formatBits (unat (exporterID metric)) 10 [], proto]))
          [''tcp'', ''udp'', ''icmp'', ''other''])
          [flowsReceived, packetsReceived, bytesReceived])) metrics)) [(''live'', [live7])])"
    by blast+
  from this(2) have "map (\<lambda>t. snd (snd t)) (map (\<lambda>s. (desc s, valType s, labelValues s)) (sent (fst (Exporter_Collect [(''live'', [live7])] [])))) =
     [[''live'', ''7'', ''tcp''], [''live'', ''7'', ''udp''], [''live'', ''7'', ''icmp''], [''live'', ''7'', ''other''],
      [''live'', ''7'', ''tcp''], [''live'', ''7'', ''udp''], [''live'', ''7'', ''icmp''], [''live'', ''7'', ''other''],
      [''live'', ''7'', ''tcp''], [''live'', ''7'', ''udp''], [''live'', ''7'', ''icmp''], [''live'', ''7'', ''other'']]"
    by (simp add: seven)
  then have "map labelValues (sent (fst (Exporter_Collect [(''live'', [live7])] []))) =
     [[''live'', ''7'', ''tcp''], [''live'', ''7'', ''udp''], [''live'', ''7'', ''icmp''], [''live'', ''7'', ''other''],
      [''live'', ''7'', ''tcp''], [''live'', ''7'', ''udp''], [''live'', ''7'', ''icmp''], [''live'', ''7'', ''other''],
      [''live'', ''7'', ''tcp''], [''live'', ''7'', ''udp''], [''live'', ''7'', ''icmp''], [''live'', ''7'', ''other'']]"
    by (simp add: comp_def)
  with v \<open>snd (Exporter_Collect [(''live'', [live7])] []) = None\<close> show ?thesis
    by blast
qed

subsection \<open>C3: the last report wins\<close>

text \<open>
  C3, on the store modelled from the spec: when a report \<open>a\<close> and then a report \<open>b\<close>
  of the same ident and exporterID are applied to any store reached from the empty one, a
  snapshot holds exactly one record for the pair, and it is \<open>b\<close> (so neither \<open>a\<close> nor a
  sum of the two); the store still has one entry per ident and one record per exporterID;
  and in every store reached from the empty one a pair of ident and exporterID has at most
  one record.
\<close>

theorem last_write_wins:
  assumes "ident a = ident b" and "exporterID a = exporterID b"
  shows "records_of (Snapshot (Upsert b (Upsert a (reports rs)))) (ident a) (exporterID a) = [b] \<and>
         store_inv (Upsert b (Upsert a (reports rs))) \<and>
         (\<forall>i e. length (records_of (Snapshot (reports rs)) i e) \<le> 1)"
proof -
  have inv: "store_inv (Upsert a (reports rs))"
    by (rule store_inv_Upsert) (rule store_inv_reports)
  have "records_of (Upsert b (Upsert a (reports rs))) (ident b) (exporterID b) = [b]"
    using inv by (rule records_of_Upsert)
  moreover have "store_inv (Upsert b (Upsert a (reports rs)))"
    using inv by (rule store_inv_Upsert)
  moreover have "length (records_of (reports rs) i e) \<le> 1" for i e
    by (rule records_of_unique) (rule store_inv_reports)
  ultimately show ?thesis
    using assms by (simp only: Snapshot_def) blast
qed

theorem last_write_wins_witness:
  "records_of (Snapshot (Upsert (live7\<lparr>numFlows_tcp := 150\<rparr>) (Upsert live7 (reports []))))
     ''live'' 7 = [live7\<lparr>numFlows_tcp := 150\<rparr>] \<and>
   numFlows_tcp (live7\<lparr>numFlows_tcp := 150\<rparr>) = 150"
  using last_write_wins [of live7 "live7\<lparr>numFlows_tcp := 150\<rparr>" "[]"]
  by (simp add: live7_def)

subsection \<open>C4: the mutex during the iteration\<close>

text \<open>
  As C4 states it, the exporter iterates over a copy without holding the lock. The source
  has no \<open>Snapshot\<close>: \<open>Collect\<close> locks the mutex and ranges over \<open>metricList\<close>
  itself. For the store holding the report of the scenario, the first sample is sent with
  the mutex held.
\<close>

theorem Collect_iterates_with_mutex_held:
  "\<not> (\<forall>pre m post.
      fst (Exporter_Collect [(''live'', [live7])] []) = pre @ SendMetric m # post \<longrightarrow> \<not> held pre)"
proof -
  have "held [MutexLock]"
    by (simp add: held_def)
  with live7_trace show ?thesis by blast
qed

text \<open>
  C4, amended: \<open>Collect\<close> takes the mutex first, then does nothing but send samples,
  and releases the mutex after the last of them, unless building a sample panics, in which
  case the trace ends with the mutex still held. So every sample is sent while the mutex
  is held.
\<close>

theorem Collect_sends_under_mutex:
  "(\<exists>ms. fst (Exporter_Collect metricList []) =
      MutexLock # map SendMetric ms @
        (case snd (Exporter_Collect metricList []) of None \<Rightarrow> [MutexUnlock] | Some e \<Rightarrow> [])) \<and>
   (\<forall>pre m post. fst (Exporter_Collect metricList []) = pre @ SendMetric m # post \<longrightarrow> held pre)"
proof -
  obtain ms where ms: "fst (Exporter_Collect metricList []) =
      MutexLock # map SendMetric ms @
        (case snd (Exporter_Collect metricList []) of None \<Rightarrow> [MutexUnlock] | Some e \<Rightarrow> [])"
    using Exporter_Collect_trace [of metricList "[]"] by auto
  let ?tl = "case snd (Exporter_Collect metricList []) of None \<Rightarrow> [MutexUnlock] | Some e \<Rightarrow> []"
  have tl: "?tl = [] \<or> ?tl = [MutexUnlock]"
    by (cases "snd (Exporter_Collect metricList [])") simp_all
  have "held pre" if split: "fst (Exporter_Collect metricList []) = pre @ SendMetric m # post"
    for pre m post
  proof (cases pre)
    case Nil
    with split ms show ?thesis by simp
  next
    case (Cons e pre')
    with split ms have e: "e = MutexLock"
      and rest: "pre' @ SendMetric m # post = map SendMetric ms @ ?tl"
      by simp_all
    from sends_prefix [OF rest tl] obtain ms' where "pre' = map SendMetric ms'" ..
    with Cons e show ?thesis
      by (simp add: held_locked_sends)
  qed
  with ms show ?thesis by blast
qed

theorem Collect_sends_under_mutex_witness:
  "(\<exists>m post. fst (Exporter_Collect [(''live'', [live7])] []) = [MutexLock] @ SendMetric m # post) \<and>
   held [MutexLock]"
proof -
  from live7_trace obtain m post
    where split: "fst (Exporter_Collect [(''live'', [live7])] []) = [MutexLock] @ SendMetric m # post"
    by blast
  with Collect_sends_under_mutex [of "[(''live'', [live7])]"] have "held [MutexLock]"
    by blast
  with live7_trace show ?thesis by blast
qed

subsection \<open>C5: the empty store\<close>

text \<open>
  As C5 states it, a pull on the empty store is answered with the schema and no sample.
  The text format has no line for a description without a sample: for a registry holding
  the exporter alone the answer is empty, without a \<open>HELP\<close> or \<open>TYPE\<close> line; and
  with a sample of the Go runtime collector, which the default registry holds, the answer
  has a sample line.
\<close>

theorem empty_pull_has_no_schema:
  "pull [] [] = Body {} \<and>
   pull [] [go_goroutines] =
     Body {HelpLine ''go_goroutines'' ''Number of goroutines that currently exist.'',
           TypeLine ''go_goroutines'' GaugeValue,
           SampleLine ''go_goroutines'' [] 8}"
  by (simp add: pull_def Exporter_Collect_def for_range_def mutex_Lock_def mutex_Unlock_def
      sent_def expose_def lines_of_def go_goroutines_def NewDesc_def)

text \<open>
  C5, amended: on the empty store \<open>Collect\<close> does not panic; it takes and releases the
  mutex and sends no sample. The exporter then adds nothing to the answer to a pull, no
  sample line and no line of its schema: the answer is what the other collectors of the
  registry yield.
\<close>

theorem empty_store_adds_nothing:
  "Exporter_Collect [] t = (t @ [MutexLock, MutexUnlock], None) \<and>
   sent (fst (Exporter_Collect [] [])) = [] \<and>
   pull [] others =
     (if distinct (map (\<lambda>m. (fqName (desc m), labelValues m)) others)
      then Body (expose others) else InternalServerError)"
  by (simp add: pull_def Exporter_Collect_def for_range_def mutex_Lock_def mutex_Unlock_def
      sent_def)

subsection \<open>C6: the descriptions\<close>

text \<open>
  C6: whatever the store holds and whatever was sent before, \<open>Describe\<close> sends the same
  four descriptions and does not panic: the uptime of the collector, labelled by version,
  and the flows, packets and bytes received, each labelled by ident, exporter and proto.
  All four are valid descriptions. Whether a metric is a gauge or a counter is not part of
  a description; it is said when a sample is built.
\<close>

theorem Describe_static:
  "Exporter_Describe metricList t =
     (t @ [SendDesc \<lparr>fqName = ''nfsen_collector_uptime'', helpText = ''nfsen uptime.'',
                     variableLabels = [''version''], constLabels = [], descErr = None\<rparr>,
           SendDesc \<lparr>fqName = ''nfsen_collector_flows'',
                     helpText = ''How many flows have been received (per ident and protocol (tcp/udp/icmp/other)).'',
                     variableLabels = [''ident'', ''exporter'', ''proto''], constLabels = [], descErr = None\<rparr>,
           SendDesc \<lparr>fqName = ''nfsen_collector_packets'',
                     helpText = ''How many packets have been received (per ident and protocol) (tcp/udp/icmp/other).'',
                     variableLabels = [''ident'', ''exporter'', ''proto''], constLabels = [], descErr = None\<rparr>,
           SendDesc \<lparr>fqName = ''nfsen_collector_bytes'',
                     helpText = ''How many bytes have been received (per ident and protocol) (tcp/udp/icmp/other).'',
                     variableLabels = [''ident'', ''exporter'', ''proto''], constLabels = [], descErr = None\<rparr>],
      None)"
  by (simp add: Exporter_Describe_def send_desc_def uptime_desc_def flowsReceived_def
      packetsReceived_def bytesReceived_def NewDesc_def BuildFQName_def namespace_def
      IsValidMetricName_def checkLabelName_def is_letter_def is_digit_def between_def byte_def)

subsection \<open>C7: a failing Open\<close>

text \<open>
  C7: when \<open>Open\<close> returns an error, \<open>main\<close> logs it and exits with status 1, having
  registered no HTTP handler and not having called \<open>ListenAndServe\<close>.
\<close>

theorem Open_failure_is_fatal:
  "main (Parsed fl) (Some err) serve_err =
     [FlagParse, MustRegister, NewMutex, SocketNew (socketPath fl), SocketOpen,
      Print (''Socket handler failed: '' @ err), OsExit 1] \<and>
   exit_status (main (Parsed fl) (Some err) serve_err) = Some 1 \<and>
   \<not> list_ex is_http (main (Parsed fl) (Some err) serve_err)"
  by (simp add: main_def log_Fatal_def is_http_def)

subsection \<open>C8: shutdown on a signal\<close>

text \<open>
  C8: on SIGINT as on SIGTERM the handler prints a line, closes the socket handler,
  removes the socket path and exits with status 0, in this order.
\<close>

theorem close_handler_order:
  "SetupCloseHandler path SIGINT =
     Some [Print (''Exit exporter'' @ [CHR 0x0A]), SocketClose, OsRemove path, OsExit 0] \<and>
   SetupCloseHandler path SIGTERM =
     Some [Print (''Exit exporter'' @ [CHR 0x0A]), SocketClose, OsRemove path, OsExit 0]"
  by (simp add: SetupCloseHandler_def notified_def)

subsection \<open>C9: reporting the same record again\<close>

text \<open>
  C9, on the store modelled from the spec: in every store reached from the empty one by
  a sequence of reports, applying a report that the store already holds leaves the store,
  and so every snapshot, as it was. (Such a store has one entry per ident and one record
  per exporterID, by \<open>store_inv_reports\<close>; that is what the proof needs.)
\<close>

theorem Upsert_idempotent:
  assumes "present r (reports rs)"
  shows "Snapshot (Upsert r (reports rs)) = Snapshot (reports rs)"
  using assms store_inv_reports [of rs] by (simp add: Snapshot_def Upsert_present)

theorem Upsert_idempotent_witness:
  "present live7 (reports [live7]) \<and>
   Snapshot (Upsert live7 (reports [live7])) = Snapshot (reports [live7])"
proof -
  have pres: "present live7 (reports [live7])"
    by (simp add: present_def reports_def)
  from pres Upsert_idempotent [OF pres] show ?thesis
    by simp
qed

subsection \<open>C10: counters as float64\<close>

text \<open>
  C10: whatever the store, the value of every sample \<open>Collect\<close> sends is the
  \<open>float64\<close> conversion of a 64-bit unsigned integer; when the idents are valid UTF-8,
  so that nothing panics, the values are the conversions of the counters \<open>Collect\<close>
  reads, record by record. The conversion of a counter of at most \<open>2 ^ 53\<close> is the
  counter itself; the conversion of any counter is a representable number, and no
  representable number is nearer to the counter; above \<open>2 ^ 53\<close> it need not be the
  counter.
\<close>

theorem Collect_rounds_to_float64:
  "list_all (\<lambda>s. \<exists>x. val s = float64 x) (sent (fst (Exporter_Collect metricList []))) \<and>
   (list_all (\<lambda>p. ValidString (fst p)) metricList \<longrightarrow>
    map val (sent (fst (Exporter_Collect metricList []))) =
      concat (map (\<lambda>(ident', metrics). concat (map (\<lambda>metric.
        map float64
          [numFlows_tcp metric, numFlows_udp metric, numFlows_icmp metric, numFlows_other metric,
           numPackets_tcp metric, numPackets_udp metric, numPackets_icmp metric, numPackets_other metric,
           numBytes_tcp metric, numBytes_udp metric, numPackets_icmp metric, numPackets_other metric])
        metrics)) metricList)) \<and>
   (\<forall>x. (unat x \<le> 2 ^ 53 \<longrightarrow> float64 x = unat x) \<and>
        representable (float64 x) \<and>
        (\<forall>y. representable y \<longrightarrow>
           \<bar>int (float64 x) - int (unat x)\<bar> \<le> \<bar>int y - int (unat x)\<bar>)) \<and>
   (\<exists>x. 2 ^ 53 < unat x \<and> float64 x \<noteq> unat x)"
proof -
  have "map val (sent (fst (Exporter_Collect metricList []))) =
      concat (map (\<lambda>(ident', metrics). concat (map (\<lambda>metric.
        map float64
          [numFlows_tcp metric, numFlows_udp metric, numFlows_icmp metric, numFlows_other metric,
           numPackets_tcp metric, numPackets_udp metric, numPackets_icmp metric, numPackets_other metric,
           numBytes_tcp metric, numBytes_udp metric, numPackets_icmp metric, numPackets_other metric])
        metrics)) metricList)"
    if v: "list_all (\<lambda>p. ValidString (fst p)) metricList"
  proof -
    have valid: "ValidString (fst p)" if "p \<in> set metricList" for p
      using v that by (simp add: list_all_iff)
    show ?thesis
      unfolding sent_Exporter_Collect [OF v] map_concat map_map comp_def
      by (rule arg_cong [where f = concat], rule map_cong [OF refl])
         (auto simp: collect_metric_values [OF valid] simp del: map_eq_conv intro!: arg_cong [where f = concat])
  qed
  moreover have "(unat x \<le> 2 ^ 53 \<longrightarrow> float64 x = unat x) \<and>
         representable (float64 x) \<and>
         (\<forall>y. representable y \<longrightarrow>
            \<bar>int (float64 x) - int (unat x)\<bar> \<le> \<bar>int y - int (unat x)\<bar>)" for x
    using float64_exact [of x] float64_representable [of x] float64_nearest [of _ x]
    by blast
  moreover have "\<exists>x. 2 ^ 53 < unat x \<and> float64 x \<noteq> unat x"
  proof (intro exI conjI)
    show "2 ^ 53 < unat (2 ^ 53 + 1 :: uint64)" by simp
    show "float64 (2 ^ 53 + 1) \<noteq> unat (2 ^ 53 + 1 :: uint64)"
      using float64_inexact by simp
  qed
  moreover have "list_all (\<lambda>s. \<exists>x. val s = float64 x) (sent (fst (Exporter_Collect metricList [])))"
    using sent_counters [of metricList] by (auto simp: list_all_iff)
  ultimately show ?thesis
    by blast
qed

theorem Collect_rounds_to_float64_witness:
  "list_all (\<lambda>p. ValidString (fst p)) [(''live'', [live7\<lparr>numBytes_tcp := 2 ^ 53 + 1\<rparr>])] \<and>
   map val (sent (fst (Exporter_Collect [(''live'', [live7\<lparr>numBytes_tcp := 2 ^ 53 + 1\<rparr>])] []))) =
     [100, 0, 0, 0, 0, 0, 0, 0, 2 ^ 53, 0, 0, 0] \<and>
   unat (5000 :: uint64) \<le> 2 ^ 53 \<and> float64 5000 = 5000 \<and>
   representable (2 ^ 53 + 2) \<and>
   \<bar>int (float64 (2 ^ 53 + 1)) - int (unat (2 ^ 53 + 1 :: uint64))\<bar> \<le>
     \<bar>int (2 ^ 53 + 2) - int (unat (2 ^ 53 + 1 :: uint64))\<bar>"
proof -
  have v: "list_all (\<lambda>p. ValidString (fst p)) [(''live'', [live7\<lparr>numBytes_tcp := 2 ^ 53 + 1\<rparr>])]"
    by (simp add: byte_def)
  note facts = Collect_rounds_to_float64 [of "[(''live'', [live7\<lparr>numBytes_tcp := 2 ^ 53 + 1\<rparr>])]"]
  from facts v have "map val (sent (fst (Exporter_Collect [(''live'', [live7\<lparr>numBytes_tcp := 2 ^ 53 + 1\<rparr>])] []))) =
      concat (map (\<lambda>(ident', metrics). concat (map (\<lambda>metric.
        map float64
          [numFlows_tcp metric, numFlows_udp metric, numFlows_icmp metric, numFlows_other metric,
           numPackets_tcp metric, numPackets_udp metric, numPackets_icmp metric, numPackets_other metric,
           numBytes_tcp metric, numBytes_udp metric, numPackets_icmp metric, numPackets_other metric])
        metrics)) [(''live'', [live7\<lparr>numBytes_tcp := 2 ^ 53 + 1\<rparr>])])"
    by blast
  then have "map val (sent (fst (Exporter_Collect [(''live'', [live7\<lparr>numBytes_tcp := 2 ^ 53 + 1\<rparr>])] []))) =
     map float64 [100, 0, 0, 0, 0, 0, 0, 0, 2 ^ 53 + 1, 0, 0, 0]"
    by (simp add: live7_def)
  moreover have "map float64 [100, 0, 0, 0, 0, 0, 0, 0, 2 ^ 53 + 1, 0, 0, 0] =
     [100, 0, 0, 0, 0, 0, 0, 0, 2 ^ 53, 0, 0, 0]"
    using float64_inexact by (simp add: float64_small)
  ultimately have vs: "map val (sent (fst (Exporter_Collect [(''live'', [live7\<lparr>numBytes_tcp := 2 ^ 53 + 1\<rparr>])] []))) =
     [100, 0, 0, 0, 0, 0, 0, 0, 2 ^ 53, 0, 0, 0]"
    by (simp only:)
  have small: "unat (5000 :: uint64) \<le> 2 ^ 53" by simp
  with facts have exact: "float64 5000 = unat (5000 :: uint64)" by blast
  from facts representable_example
  have near: "\<bar>int (float64 (2 ^ 53 + 1)) - int (unat (2 ^ 53 + 1 :: uint64))\<bar> \<le>
     \<bar>int (2 ^ 53 + 2) - int (unat (2 ^ 53 + 1 :: uint64))\<bar>"
    by blast
  from v vs small exact representable_example near show ?thesis
    by simp
qed

end
